theory Spec2Isabelle
  imports Main "HOL-Library.Sublist"
begin

section \<open>Strings, character classes and decimal numerals\<close>

text \<open>
  The scripts work on Python \<open>str\<close> values. A \<^typ>\<open>string\<close> of this theory is a Python
  string whose code points are all below 256; one \<^typ>\<open>char\<close> is one code point. The
  character classes of Python's \<open>re\<close> module and \<open>str.lower\<close> are written out for exactly
  this range (for a \<open>str\<close> pattern \<open>\d\<close>, \<open>\w\<close> and \<open>\s\<close> are the Unicode classes).
  Python integers are unbounded and are values of \<^typ>\<open>int\<close>; the interpreter's
  configurable limit on the number of digits of a decimal conversion is not modelled.
\<close>

definition code_point :: "char \<Rightarrow> nat" where
  "code_point c = of_char c"

definition newline :: char where
  "newline = CHR 0x0A"

text \<open>The class \<open>\d\<close> on code points below 256: the ASCII digits. (From 256 on, \<open>\d\<close>
  and \<open>int\<close> also take the decimal digits of other scripts; no string of this theory
  contains one.)\<close>

definition is_digit :: "char \<Rightarrow> bool" where
  "is_digit c \<longleftrightarrow> 48 \<le> code_point c \<and> code_point c \<le> 57"

text \<open>The class \<open>[a-zA-Z]\<close>.\<close>

definition is_letter :: "char \<Rightarrow> bool" where
  "is_letter c \<longleftrightarrow>
     (65 \<le> code_point c \<and> code_point c \<le> 90) \<or> (97 \<le> code_point c \<and> code_point c \<le> 122)"

text \<open>The class \<open>\w\<close>: alphanumeric code points and the underscore.\<close>

definition is_word_char :: "char \<Rightarrow> bool" where
  "is_word_char c \<longleftrightarrow>
     (let n = code_point c in
        (48 \<le> n \<and> n \<le> 57) \<or> (65 \<le> n \<and> n \<le> 90) \<or> n = 95 \<or> (97 \<le> n \<and> n \<le> 122) \<or>
        n = 170 \<or> n = 178 \<or> n = 179 \<or> n = 181 \<or> n = 185 \<or> n = 186 \<or>
        (188 \<le> n \<and> n \<le> 190) \<or> (192 \<le> n \<and> n \<le> 214) \<or> (216 \<le> n \<and> n \<le> 246) \<or>
        248 \<le> n)"

text \<open>The class \<open>\s\<close>.\<close>

definition is_space :: "char \<Rightarrow> bool" where
  "is_space c \<longleftrightarrow>
     (let n = code_point c in
        (9 \<le> n \<and> n \<le> 13) \<or> (28 \<le> n \<and> n \<le> 32) \<or> n = 133 \<or> n = 160)"

text \<open>\<open>str.lower\<close>, one code point at a time.\<close>

definition lower_char :: "char \<Rightarrow> char" where
  "lower_char c =
     (let n = code_point c in
        if (65 \<le> n \<and> n \<le> 90) \<or> (192 \<le> n \<and> n \<le> 214) \<or> (216 \<le> n \<and> n \<le> 222)
        then char_of (n + 32) else c)"

definition lower :: "string \<Rightarrow> string" where
  "lower s = map lower_char s"

text \<open>\<open>str(n)\<close> for a Python integer, and \<open>int(s)\<close> for a string of decimal digits.\<close>

fun str_nat :: "nat \<Rightarrow> string" where
  "str_nat n =
     (if n < 10 then [char_of (48 + n)] else str_nat (n div 10) @ [char_of (48 + n mod 10)])"

declare str_nat.simps [simp del]

definition str :: "int \<Rightarrow> string" where
  "str i = (if i < 0 then CHR ''-'' # str_nat (nat (- i)) else str_nat (nat i))"

definition int_of_str :: "string \<Rightarrow> int" where
  "int_of_str s = foldl (\<lambda>a c. 10 * a + int (code_point c - 48)) 0 s"


section \<open>The regular-expression steps used by the two patterns\<close>

text \<open>
  \<open>re.match\<close> is a backtracking matcher. Both patterns of the scripts are built from
  greedy repetitions of a character class followed by something that no character of the
  class can start, so each repetition can only end where the class ends; the steps below
  are these forced choices. The one place where backtracking changes the result, the
  \<open>\s*(.+)$\<close> tail of the commit pattern, is modelled with its alternatives.
\<close>

text \<open>A greedy \<open>C+\<close>: the longest run of the class, which must not be empty.\<close>

definition re_plus :: "(char \<Rightarrow> bool) \<Rightarrow> string \<Rightarrow> (string \<times> string) option" where
  "re_plus P s =
     (if takeWhile P s = [] then None else Some (takeWhile P s, dropWhile P s))"

text \<open>A literal character.\<close>

fun re_lit :: "char \<Rightarrow> string \<Rightarrow> string option" where
  "re_lit c [] = None"
| "re_lit c (x # r) = (if x = c then Some r else None)"

text \<open>\<open>$\<close> without \<open>re.MULTILINE\<close>: the end of the string, or just before a newline that
  is its last character.\<close>

definition re_end :: "string \<Rightarrow> bool" where
  "re_end s \<longleftrightarrow> s = [] \<or> s = [newline]"

section \<open>git-release.py\<close>

datatype BumpType = MAJOR | MINOR | PATCH | PREMAJOR | PREMINOR | PREPATCH | PRERELEASE

datatype error = InvalidVersion

type_synonym version = "int \<times> int \<times> int \<times> string option \<times> int option"

text \<open>\<open>version.lstrip("v")\<close> removes every leading \<open>v\<close>.\<close>

definition lstrip_v :: "string \<Rightarrow> string" where
  "lstrip_v s = dropWhile (\<lambda>c. c = CHR ''v'') s"

text \<open>
  The tail \<open>(?:-([a-zA-Z]+)\.?(\d+)?)?$\<close> of the version pattern, tried with the group
  taken: the result is groups 4 and 5.
\<close>

definition match_prerelease :: "string \<Rightarrow> (string \<times> string option) option" where
  "match_prerelease s =
     (case re_lit CHR ''-'' s of
        None \<Rightarrow> None
      | Some s1 \<Rightarrow>
          (case re_plus is_letter s1 of
             None \<Rightarrow> None
           | Some (g4, s2) \<Rightarrow>
               (let s3 = (case re_lit CHR ''.'' s2 of Some r \<Rightarrow> r | None \<Rightarrow> s2);
                    g5 = takeWhile is_digit s3;
                    s4 = dropWhile is_digit s3
                in if re_end s4 then Some (g4, if g5 = [] then None else Some g5) else None)))"

text \<open>The pattern \<open>^(\d+)\.(\d+)\.(\d+)(?:-([a-zA-Z]+)\.?(\d+)?)?$\<close>; the result is the
  five groups.\<close>

definition match_version ::
  "string \<Rightarrow> (string \<times> string \<times> string \<times> string option \<times> string option) option" where
  "match_version s =
     (case re_plus is_digit s of
        None \<Rightarrow> None
      | Some (g1, s1) \<Rightarrow>
     (case re_lit CHR ''.'' s1 of
        None \<Rightarrow> None
      | Some s2 \<Rightarrow>
     (case re_plus is_digit s2 of
        None \<Rightarrow> None
      | Some (g2, s3) \<Rightarrow>
     (case re_lit CHR ''.'' s3 of
        None \<Rightarrow> None
      | Some s4 \<Rightarrow>
     (case re_plus is_digit s4 of
        None \<Rightarrow> None
      | Some (g3, s5) \<Rightarrow>
     (case match_prerelease s5 of
        Some (g4, g5) \<Rightarrow> Some (g1, g2, g3, Some g4, g5)
      | None \<Rightarrow> if re_end s5 then Some (g1, g2, g3, None, None) else None))))))"

text \<open>\<open>parse_version\<close>: a string that does not match ends the program (\<open>sys.exit(1)\<close>),
  which is the error \<open>InvalidVersion\<close>.\<close>

definition parse_version :: "string \<Rightarrow> error + version" where
  "parse_version version =
     (case match_version (lstrip_v version) of
        None \<Rightarrow> Inl InvalidVersion
      | Some (g1, g2, g3, g4, g5) \<Rightarrow>
          Inr (int_of_str g1, int_of_str g2, int_of_str g3, g4, map_option int_of_str g5))"

text \<open>\<open>format_version\<close>; \<open>if pre_type:\<close> holds for a string that is present and not
  empty.\<close>

definition format_version ::
  "int \<Rightarrow> int \<Rightarrow> int \<Rightarrow> string option \<Rightarrow> int option \<Rightarrow> string \<Rightarrow> string" where
  "format_version major minor patch pre_type pre_num pfx =
     (let version = pfx @ str major @ ''.'' @ str minor @ ''.'' @ str patch
      in case pre_type of
           None \<Rightarrow> version
         | Some t \<Rightarrow>
             if t = [] then version
             else (case pre_num of
                     None \<Rightarrow> version @ ''-'' @ t
                   | Some n \<Rightarrow> version @ ''-'' @ t @ ''.'' @ str n))"

text \<open>The prefix that \<open>bump_version\<close> carries over:
  \<open>"v" if current.startswith("v") else ""\<close>.\<close>

definition version_prefix :: "string \<Rightarrow> string" where
  "version_prefix current = (if prefix ''v'' current then ''v'' else '''')"

text \<open>\<open>bump_version\<close>; \<open>(pre_num or 0) + 1\<close> reads a missing number as 0. The seven
  branches cover \<open>BumpType\<close>, so the final \<open>return current\<close> is never reached.\<close>

definition bump_version :: "string \<Rightarrow> BumpType \<Rightarrow> string \<Rightarrow> error + string" where
  "bump_version current bump_type preid =
     (case parse_version current of
        Inl e \<Rightarrow> Inl e
      | Inr (major, minor, patch, pre_type, pre_num) \<Rightarrow>
          (let pfx = version_prefix current
           in Inr
             (case bump_type of
                MAJOR \<Rightarrow> format_version (major + 1) 0 0 None None pfx
              | MINOR \<Rightarrow> format_version major (minor + 1) 0 None None pfx
              | PATCH \<Rightarrow>
                  if pre_type \<noteq> None \<and> pre_type \<noteq> Some []
                  then format_version major minor patch None None pfx
                  else format_version major minor (patch + 1) None None pfx
              | PREMAJOR \<Rightarrow> format_version (major + 1) 0 0 (Some preid) (Some 0) pfx
              | PREMINOR \<Rightarrow> format_version major (minor + 1) 0 (Some preid) (Some 0) pfx
              | PREPATCH \<Rightarrow> format_version major minor (patch + 1) (Some preid) (Some 0) pfx
              | PRERELEASE \<Rightarrow>
                  if pre_type \<noteq> None \<and> pre_type \<noteq> Some []
                  then (let new_pre_num = (case pre_num of None \<Rightarrow> 0 | Some n \<Rightarrow> n) + 1
                        in format_version major minor patch pre_type (Some new_pre_num) pfx)
                  else format_version major minor (patch + 1) (Some preid) (Some 0) pfx)))"

text \<open>A commit as \<open>get_commits_since_tag\<close> builds it: a dictionary with the keys
  \<open>hash\<close> and \<open>subject\<close>.\<close>

record commit =
  hash :: string
  subject :: string

text \<open>
  \<open>analyze_commits\<close>: the loop carries the two flags. \<open>subject.split(":")[0]\<close> is the
  text before the first colon (the whole subject when it has none), \<open>x in y\<close> on strings
  is the substring test and \<open>startswith\<close> the prefix test.
\<close>

fun analyze_loop :: "bool \<Rightarrow> bool \<Rightarrow> 'a commit_scheme list \<Rightarrow> bool \<times> bool" where
  "analyze_loop has_breaking has_feat [] = (has_breaking, has_feat)"
| "analyze_loop has_breaking has_feat (c # commits) =
     (let subj = lower (subject c);
          has_breaking' =
            (if CHR ''!'' \<in> set (takeWhile (\<lambda>x. x \<noteq> CHR '':'') subj) \<or> sublist ''breaking'' subj
             then True else has_breaking);
          has_feat' = (if prefix ''feat'' subj then True else has_feat)
      in analyze_loop has_breaking' has_feat' commits)"

definition analyze_commits :: "'a commit_scheme list \<Rightarrow> BumpType" where
  "analyze_commits commits =
     (case analyze_loop False False commits of
        (has_breaking, has_feat) \<Rightarrow>
          if has_breaking then MAJOR else if has_feat then MINOR else PATCH)"

section \<open>git-changelog.py\<close>

text \<open>
  \<open>COMMIT_TYPES\<close>, in the order of the dictionary literal: key, title, glyph. The glyphs
  lie outside the range of \<^typ>\<open>char\<close> and are written as their UTF-8 octets; nothing
  below depends on them.
\<close>

definition COMMIT_TYPES :: "(string \<times> string \<times> string) list" where
  "COMMIT_TYPES =
     [(''feat'', ''Features'', [CHR 0xE2, CHR 0x9C, CHR 0xA8]),
      (''fix'', ''Bug Fixes'', [CHR 0xF0, CHR 0x9F, CHR 0x90, CHR 0x9B]),
      (''docs'', ''Documentation'', [CHR 0xF0, CHR 0x9F, CHR 0x93, CHR 0x9A]),
      (''style'', ''Styles'', [CHR 0xF0, CHR 0x9F, CHR 0x92, CHR 0x8E]),
      (''refactor'', ''Code Refactoring'', [CHR 0xE2, CHR 0x99, CHR 0xBB, CHR 0xEF, CHR 0xB8, CHR 0x8F]),
      (''perf'', ''Performance'', [CHR 0xE2, CHR 0x9A, CHR 0xA1]),
      (''test'', ''Tests'', [CHR 0xF0, CHR 0x9F, CHR 0xA7, CHR 0xAA]),
      (''build'', ''Build System'', [CHR 0xF0, CHR 0x9F, CHR 0x93, CHR 0xA6]),
      (''ci'', ''CI/CD'', [CHR 0xF0, CHR 0x9F, CHR 0x94, CHR 0xA7]),
      (''chore'', ''Chores'', [CHR 0xF0, CHR 0x9F, CHR 0x94, CHR 0xA8]),
      (''revert'', ''Reverts'', [CHR 0xE2, CHR 0x8F, CHR 0xAA]),
      (''security'', ''Security'', [CHR 0xF0, CHR 0x9F, CHR 0x94, CHR 0x92])]"


text \<open>\<open>commit_type in COMMIT_TYPES\<close>.\<close>

definition known_type :: "string \<Rightarrow> bool" where
  "known_type t \<longleftrightarrow> t \<in> set (map fst COMMIT_TYPES)"

text \<open>
  The optional group \<open>(?:\(([^)]+)\))?\<close>: taken when an opening parenthesis is followed
  by at least one character other than \<open>)\<close> and then by \<open>)\<close>, skipped otherwise. The
  result is group 2 and the rest of the subject.
\<close>

fun match_scope :: "string \<Rightarrow> string option \<times> string" where
  "match_scope [] = (None, [])"
| "match_scope (x # r) =
     (if x = CHR ''('' \<and> takeWhile (\<lambda>c. c \<noteq> CHR '')'') r \<noteq> [] \<and> dropWhile (\<lambda>c. c \<noteq> CHR '')'') r \<noteq> []
      then (Some (takeWhile (\<lambda>c. c \<noteq> CHR '')'') r), tl (dropWhile (\<lambda>c. c \<noteq> CHR '')'') r))
      else (None, x # r))"

text \<open>The optional group \<open>(!)?\<close>.\<close>

fun match_bang :: "string \<Rightarrow> bool \<times> string" where
  "match_bang [] = (False, [])"
| "match_bang (x # r) = (if x = CHR ''!'' then (True, r) else (False, x # r))"

text \<open>
  \<open>(.+)$\<close> at a fixed start: the dot matches everything but a newline, so the group is
  the run up to the first newline, it must not be empty, and \<open>$\<close> must hold after it.
\<close>

definition match_rest :: "string \<Rightarrow> string option" where
  "match_rest t =
     (let m = takeWhile (\<lambda>c. c \<noteq> newline) t
      in if m \<noteq> [] \<and> re_end (dropWhile (\<lambda>c. c \<noteq> newline) t) then Some m else None)"

text \<open>
  \<open>\s*(.+)$\<close>: the greedy \<open>\s*\<close> first takes all \<open>k\<close> leading white-space characters and
  gives them back one at a time until the rest matches.
\<close>

fun match_message :: "nat \<Rightarrow> string \<Rightarrow> string option" where
  "match_message 0 r = match_rest r"
| "match_message (Suc k) r =
     (case match_rest (drop (Suc k) r) of
        Some m \<Rightarrow> Some m
      | None \<Rightarrow> match_message k r)"

text \<open>The pattern \<open>^(\w+)(?:\(([^)]+)\))?(!)?\s*:\s*(.+)$\<close>; the result is groups 1 and 2,
  whether group 3 took part, and group 4.\<close>

definition match_commit :: "string \<Rightarrow> (string \<times> string option \<times> bool \<times> string) option" where
  "match_commit s =
     (case re_plus is_word_char s of
        None \<Rightarrow> None
      | Some (g1, s1) \<Rightarrow>
     (case match_scope s1 of (g2, s2) \<Rightarrow>
     (case match_bang s2 of (g3, s3) \<Rightarrow>
     (case re_lit CHR '':'' (dropWhile is_space s3) of
        None \<Rightarrow> None
      | Some s4 \<Rightarrow>
     (case match_message (length (takeWhile is_space s4)) s4 of
        None \<Rightarrow> None
      | Some g4 \<Rightarrow> Some (g1, g2, g3, g4))))))"

text \<open>\<open>parse_commit\<close> returns (type, scope, message, is_breaking).\<close>

definition parse_commit :: "string \<Rightarrow> string \<times> string \<times> string \<times> bool" where
  "parse_commit subj =
     (case match_commit subj of
        Some (g1, g2, g3, g4) \<Rightarrow> (lower g1, (case g2 of None \<Rightarrow> [] | Some sc \<Rightarrow> sc), g4, g3)
      | None \<Rightarrow> (''other'', [], subj, False))"

text \<open>A commit as \<open>get_commits_between\<close> builds it, and after \<open>group_commits\<close> has stored
  the four parsed fields in it.\<close>

record changelog_commit = commit +
  date :: string
  author :: string

record classified_commit = changelog_commit +
  type :: string
  scope :: string
  message :: string
  breaking :: bool

definition classify :: "changelog_commit \<Rightarrow> classified_commit" where
  "classify c =
     (case parse_commit (subject c) of
        (commit_type, sc, msg, is_breaking) \<Rightarrow>
          \<lparr>hash = hash c, subject = subject c, date = date c, author = author c,
           type = commit_type, scope = sc, message = msg, breaking = is_breaking\<rparr>)"

text \<open>The key under which \<open>group_commits\<close> files a commit.\<close>

definition bucket :: "classified_commit \<Rightarrow> string" where
  "bucket c = (if known_type (type c) then type c else ''other'')"

text \<open>
  The grouped commits are a \<open>defaultdict(list)\<close>; a Python dictionary keeps its keys in
  the order of their first insertion, so it is an association list. \<open>grouped[k].append(c)\<close>
  extends the list of an existing key in place and puts a new key last.
\<close>

type_synonym grouped = "(string \<times> classified_commit list) list"

fun dict_append :: "grouped \<Rightarrow> string \<Rightarrow> classified_commit \<Rightarrow> grouped" where
  "dict_append [] k c = [(k, [c])]"
| "dict_append ((k', cs) # d) k c =
     (if k' = k then (k', cs @ [c]) # d else (k', cs) # dict_append d k c)"

fun group_loop :: "grouped \<Rightarrow> changelog_commit list \<Rightarrow> grouped" where
  "group_loop grouped [] = grouped"
| "group_loop grouped (c # commits) =
     group_loop (dict_append grouped (bucket (classify c)) (classify c)) commits"

definition group_commits :: "changelog_commit list \<Rightarrow> grouped" where
  "group_commits commits = group_loop [] commits"

text \<open>\<open>grouped_commits[k]\<close> guarded by \<open>k in grouped_commits\<close>: the list of a missing key
  is never read, and an empty list emits nothing.\<close>

definition bucket_of :: "grouped \<Rightarrow> string \<Rightarrow> classified_commit list" where
  "bucket_of grouped k = (case map_of grouped k of None \<Rightarrow> [] | Some cs \<Rightarrow> cs)"

text \<open>The list \<open>breaking\<close> of \<open>format_markdown\<close>: the loop over
  \<open>grouped_commits.values()\<close> and, inside it, over the commits of each list.\<close>

definition breaking_commits :: "grouped \<Rightarrow> classified_commit list" where
  "breaking_commits grouped = concat (map (\<lambda>(k, cs). filter breaking cs) grouped)"












section \<open>Shapes of strings\<close>

definition digits :: "string \<Rightarrow> bool" where
  "digits s \<longleftrightarrow> s \<noteq> [] \<and> list_all is_digit s"

definition letters :: "string \<Rightarrow> bool" where
  "letters s \<longleftrightarrow> s \<noteq> [] \<and> list_all is_letter s"

text \<open>
  The version grammar as the specification words it: \<open>[v]MAJOR.MINOR.PATCH[-IDENT[.NUM]]\<close>,
  with at most one leading \<open>v\<close>, and a number only after a dot.
\<close>

definition spec_prerelease_suffix :: "string \<Rightarrow> bool" where
  "spec_prerelease_suffix suf \<longleftrightarrow>
     suf = [] \<or> (\<exists>i. letters i \<and> suf = ''-'' @ i) \<or>
     (\<exists>i n. letters i \<and> digits n \<and> suf = ''-'' @ i @ ''.'' @ n)"

definition spec_version_grammar :: "string \<Rightarrow> bool" where
  "spec_version_grammar s \<longleftrightarrow>
     (\<exists>p a b c suf. (p = [] \<or> p = ''v'') \<and> digits a \<and> digits b \<and> digits c \<and>
        spec_prerelease_suffix suf \<and> s = p @ a @ ''.'' @ b @ ''.'' @ c @ suf)"

text \<open>
  The same grammar with the suffix the pattern of \<open>parse_version\<close> takes: after the
  identifier the dot and the number are each optional, independently.
\<close>

definition lenient_prerelease_suffix :: "string \<Rightarrow> bool" where
  "lenient_prerelease_suffix suf \<longleftrightarrow>
     suf = [] \<or>
     (\<exists>i d n. letters i \<and> (d = [] \<or> d = ''.'') \<and> list_all is_digit n \<and> suf = ''-'' @ i @ d @ n)"

definition lenient_version_grammar :: "string \<Rightarrow> bool" where
  "lenient_version_grammar s \<longleftrightarrow>
     (\<exists>p a b c suf. (p = [] \<or> p = ''v'') \<and> digits a \<and> digits b \<and> digits c \<and>
        lenient_prerelease_suffix suf \<and> s = p @ a @ ''.'' @ b @ ''.'' @ c @ suf)"

text \<open>
  A SemanticVersion of the specification: components that are not negative, and a
  prerelease that is absent or has a non-empty identifier of letters and an optional
  number that is not negative.
\<close>

definition valid_version :: "version \<Rightarrow> bool" where
  "valid_version v \<longleftrightarrow>
     (case v of (major, minor, patch, pre_type, pre_num) \<Rightarrow>
        0 \<le> major \<and> 0 \<le> minor \<and> 0 \<le> patch \<and>
        (case pre_type of
           None \<Rightarrow> pre_num = None
         | Some i \<Rightarrow> letters i \<and> (case pre_num of None \<Rightarrow> True | Some n \<Rightarrow> 0 \<le> n)))"

text \<open>
  The suggestion rule as the specification words it: a \<open>!\<close> immediately before the
  header colon (the first colon of the subject), the word "breaking" in any case, and the
  type as the lower-cased first word of the subject.
\<close>

definition spec_bang_before_colon :: "string \<Rightarrow> bool" where
  "spec_bang_before_colon s \<longleftrightarrow>
     (let header = takeWhile (\<lambda>c. c \<noteq> CHR '':'') s
      in dropWhile (\<lambda>c. c \<noteq> CHR '':'') s \<noteq> [] \<and> header \<noteq> [] \<and> last header = CHR ''!'')"

definition spec_type :: "string \<Rightarrow> string" where
  "spec_type s = lower (takeWhile is_word_char s)"

definition spec_suggest :: "string list \<Rightarrow> BumpType" where
  "spec_suggest subjects =
     (if list_ex (\<lambda>s. spec_bang_before_colon s \<or> sublist ''breaking'' (lower s)) subjects then MAJOR
      else if list_ex (\<lambda>s. spec_type s = ''feat'') subjects then MINOR
      else PATCH)"

text \<open>The parts of a commit header: \<open>(scope)\<close> or nothing, \<open>!\<close> or nothing.\<close>

definition scope_text :: "string option \<Rightarrow> string" where
  "scope_text sc = (case sc of None \<Rightarrow> [] | Some x \<Rightarrow> ''('' @ x @ '')'')"

definition bang_text :: "bool \<Rightarrow> string" where
  "bang_text b = (if b then ''!'' else [])"

text \<open>
  The commit grammar as the specification words it, \<open>type[(scope)][!]: message\<close>: the
  type is one or more word characters, the scope any text without \<open>)\<close>, the \<open>!\<close> stands
  immediately before the colon, and after the colon come optional white space and the
  message.
\<close>

definition spec_commit_parts :: "string \<Rightarrow> string \<Rightarrow> string option \<Rightarrow> bool \<Rightarrow> string \<Rightarrow> bool" where
  "spec_commit_parts subj ty sc bang msg \<longleftrightarrow>
     ty \<noteq> [] \<and> list_all is_word_char ty \<and>
     (case sc of None \<Rightarrow> True | Some x \<Rightarrow> CHR '')'' \<notin> set x) \<and> msg \<noteq> [] \<and>
     (\<exists>ws. list_all is_space ws \<and> subj = ty @ scope_text sc @ bang_text bang @ '':'' @ ws @ msg)"

definition spec_commit_grammar :: "string \<Rightarrow> bool" where
  "spec_commit_grammar subj \<longleftrightarrow> (\<exists>ty sc bang msg. spec_commit_parts subj ty sc bang msg)"

text \<open>
  The grammar the pattern of \<open>parse_commit\<close> takes on a subject of one line: white space
  may also stand before the colon, a scope is not empty, and the white space after the
  colon is as long as it can be with a message left (so the message starts with a
  character that is not white space, or is one single character).
\<close>

definition commit_parts :: "string \<Rightarrow> string \<Rightarrow> string option \<Rightarrow> bool \<Rightarrow> string \<Rightarrow> bool" where
  "commit_parts subj ty sc bang msg \<longleftrightarrow>
     ty \<noteq> [] \<and> list_all is_word_char ty \<and>
     (case sc of None \<Rightarrow> True | Some x \<Rightarrow> x \<noteq> [] \<and> CHR '')'' \<notin> set x) \<and>
     msg \<noteq> [] \<and> (\<not> is_space (hd msg) \<or> tl msg = []) \<and>
     (\<exists>ws1 ws2. list_all is_space ws1 \<and> list_all is_space ws2 \<and>
        subj = ty @ scope_text sc @ bang_text bang @ ws1 @ '':'' @ ws2 @ msg)"

definition commit_grammar :: "string \<Rightarrow> bool" where
  "commit_grammar subj \<longleftrightarrow> (\<exists>ty sc bang msg. commit_parts subj ty sc bang msg)"

text \<open>The keys of a sequence in the order of their first occurrence.\<close>

fun first_seen :: "'a list \<Rightarrow> 'a list" where
  "first_seen [] = []"
| "first_seen (x # xs) = x # filter (\<lambda>y. y \<noteq> x) (first_seen xs)"



section \<open>Facts about the string functions\<close>

lemma is_digit_simps: "\<not> is_digit CHR ''.''" "\<not> is_digit CHR ''-''" "\<not> is_digit CHR ''v''" "\<not> is_digit newline"
  by (simp_all add: is_digit_def code_point_def newline_def)

lemma str_nat_digits: "list_all is_digit (str_nat n)"
proof (induction n rule: str_nat.induct)
  case (1 n)
  have d: "is_digit (char_of (48 + k))" if "k < 10" for k :: nat
    using that by (simp add: is_digit_def code_point_def)
  show ?case
  proof (cases "n < 10")
    case True
    then show ?thesis by (subst str_nat.simps) (simp add: d)
  next
    case False
    then show ?thesis using 1 by (subst str_nat.simps) (simp add: d)
  qed
qed

lemma str_nat_nonempty: "str_nat n \<noteq> []"
  by (subst str_nat.simps) simp

lemma int_of_str_snoc: "int_of_str (s @ [c]) = 10 * int_of_str s + int (code_point c - 48)"
  by (simp add: int_of_str_def)

lemma int_of_str_str_nat: "int_of_str (str_nat n) = int n"
proof (induction n rule: str_nat.induct)
  case (1 n)
  have d: "code_point (char_of (48 + k)) - 48 = k" if "k < 10" for k :: nat
    using that by (simp add: code_point_def)
  show ?case
  proof (cases "n < 10")
    case True
    then show ?thesis by (subst str_nat.simps) (simp add: int_of_str_def d)
  next
    case False
    then have "int_of_str (str_nat n) = 10 * int (n div 10) + int (n mod 10)"
      using 1 by (subst str_nat.simps) (simp add: int_of_str_snoc d)
    then show ?thesis by presburger
  qed
qed


lemma takeWhile_run:
  "list_all P a \<Longrightarrow> r = [] \<or> \<not> P (hd r) \<Longrightarrow> takeWhile P (a @ r) = a \<and> dropWhile P (a @ r) = r"
proof (induction a)
  case Nil
  then show ?case by (cases r) auto
next
  case (Cons x a)
  then show ?case by simp
qed

lemma re_plus_run:
  "a \<noteq> [] \<Longrightarrow> list_all P a \<Longrightarrow> r = [] \<or> \<not> P (hd r) \<Longrightarrow> re_plus P (a @ r) = Some (a, r)"
  using takeWhile_run [of P a r] by (simp add: re_plus_def)

lemma re_plus_Some:
  assumes "re_plus P s = Some (g, r)"
  shows "g \<noteq> [] \<and> list_all P g \<and> s = g @ r \<and> (r = [] \<or> \<not> P (hd r))"
proof -
  from assms have g: "g = takeWhile P s" "r = dropWhile P s" "takeWhile P s \<noteq> []"
    by (auto simp: re_plus_def split: if_splits)
  have "list_all P (takeWhile P s)"
    by (simp add: list_all_iff) (meson set_takeWhileD)
  moreover have "dropWhile P s = [] \<or> \<not> P (hd (dropWhile P s))"
    using hd_dropWhile by blast
  ultimately show ?thesis using g by simp
qed

lemma re_lit_Some: "re_lit c s = Some r \<longleftrightarrow> s = c # r"
  by (cases s) auto

lemma re_end_simps: "re_end []" "re_end [newline]"
  by (simp_all add: re_end_def)

lemma is_letter_simps: "\<not> is_letter CHR ''.''" "\<not> is_letter newline" "is_digit c \<Longrightarrow> \<not> is_letter c"
  by (auto simp: is_letter_def is_digit_def code_point_def newline_def)

lemma newline_neq: "newline \<noteq> CHR ''.''" "newline \<noteq> CHR ''-''" "newline \<noteq> CHR ''v''"
  by (simp_all add: newline_def)

lemma match_prerelease_complete:
  assumes "letters i" "d = [] \<or> d = ''.''" "list_all is_digit n" "re_end t"
  shows "match_prerelease (''-'' @ i @ d @ n @ t) = Some (i, if n = [] then None else Some n)"
proof -
  have t: "t = [] \<or> \<not> is_digit (hd t)"
    using assms(4) by (auto simp: re_end_def is_digit_simps)
  have nt: "n @ t = [] \<or> (\<not> is_letter (hd (n @ t)) \<and> hd (n @ t) \<noteq> CHR ''.'')"
    using assms(3,4) by (cases n) (auto simp: re_end_def is_letter_simps is_digit_simps newline_neq)
  have rest: "d @ n @ t = [] \<or> \<not> is_letter (hd (d @ n @ t))"
    using assms(2) nt by (auto simp: is_letter_simps)
  have 1: "re_plus is_letter (i @ d @ n @ t) = Some (i, d @ n @ t)"
    using assms(1) rest by (intro re_plus_run) (auto simp: letters_def)
  have 2: "(case re_lit CHR ''.'' (d @ n @ t) of Some r \<Rightarrow> r | None \<Rightarrow> d @ n @ t) = n @ t"
    using assms(2) nt by (cases "n @ t") (auto split: option.splits)
  have 3: "takeWhile is_digit (n @ t) = n" "dropWhile is_digit (n @ t) = t"
    using takeWhile_run [OF assms(3) t] by simp_all
  show ?thesis
    using assms(4) by (simp add: match_prerelease_def 1 2 3 Let_def)
qed

lemma match_prerelease_sound:
  assumes "match_prerelease s = Some (g4, g5)"
  shows "\<exists>d n t. letters g4 \<and> (d = [] \<or> d = ''.'') \<and> list_all is_digit n \<and> re_end t \<and>
           s = ''-'' @ g4 @ d @ n @ t \<and> g5 = (if n = [] then None else Some n)"
proof -
  from assms obtain s1 where s1: "re_lit CHR ''-'' s = Some s1"
    by (auto simp: match_prerelease_def split: option.splits)
  with assms obtain s2 where s2: "re_plus is_letter s1 = Some (g4, s2)"
    by (auto simp: match_prerelease_def Let_def split: option.splits if_splits)
  define s3 where "s3 = (case re_lit CHR ''.'' s2 of Some r \<Rightarrow> r | None \<Rightarrow> s2)"
  have e: "re_end (dropWhile is_digit s3)" and g5: "g5 = (if takeWhile is_digit s3 = [] then None else Some (takeWhile is_digit s3))"
    using assms s1 s2 by (auto simp: match_prerelease_def Let_def s3_def split: option.splits if_splits)
  obtain d where d: "d = [] \<or> d = ''.''" "s2 = d @ s3"
    unfolding s3_def by (cases "re_lit CHR ''.'' s2") (auto simp: re_lit_Some)
  have "list_all is_digit (takeWhile is_digit s3)"
    by (simp add: list_all_iff) (meson set_takeWhileD)
  moreover have "s = ''-'' @ g4 @ d @ takeWhile is_digit s3 @ dropWhile is_digit s3"
    using s1 re_plus_Some [OF s2] d by (simp add: re_lit_Some)
  moreover have "letters g4"
    using re_plus_Some [OF s2] by (simp add: letters_def)
  ultimately show ?thesis using d e g5 by blast
qed

section \<open>The version pattern\<close>

lemma match_version_complete:
  assumes "digits a" "digits b" "digits c" "suf = [] \<or> \<not> is_digit (hd suf)"
  shows "match_version (a @ ''.'' @ b @ ''.'' @ c @ suf) =
           (case match_prerelease suf of
              Some (g4, g5) \<Rightarrow> Some (a, b, c, Some g4, g5)
            | None \<Rightarrow> if re_end suf then Some (a, b, c, None, None) else None)"
proof -
  have 1: "re_plus is_digit (a @ ''.'' @ b @ ''.'' @ c @ suf) = Some (a, ''.'' @ b @ ''.'' @ c @ suf)"
    using assms(1) by (intro re_plus_run) (auto simp: digits_def is_digit_simps)
  have 2: "re_plus is_digit (b @ ''.'' @ c @ suf) = Some (b, ''.'' @ c @ suf)"
    using assms(2) by (intro re_plus_run) (auto simp: digits_def is_digit_simps)
  have 3: "re_plus is_digit (c @ suf) = Some (c, suf)"
    using assms(3,4) by (intro re_plus_run) (auto simp: digits_def)
  show ?thesis
    using 1 2 3 by (simp add: match_version_def)
qed

lemma match_version_sound:
  assumes "match_version s = Some (g1, g2, g3, g4, g5)"
  shows "digits g1 \<and> digits g2 \<and> digits g3 \<and>
         (\<exists>suf. s = g1 @ ''.'' @ g2 @ ''.'' @ g3 @ suf \<and>
            (case match_prerelease suf of
               Some (x, y) \<Rightarrow> g4 = Some x \<and> g5 = y
             | None \<Rightarrow> re_end suf \<and> g4 = None \<and> g5 = None))"
proof -
  from assms obtain s1 where 1: "re_plus is_digit s = Some (g1, s1)"
    by (auto simp: match_version_def split: option.splits if_splits)
  with assms obtain s2 where 2: "re_lit CHR ''.'' s1 = Some s2"
    by (auto simp: match_version_def split: option.splits if_splits)
  with assms 1 obtain s3 where 3: "re_plus is_digit s2 = Some (g2, s3)"
    by (auto simp: match_version_def split: option.splits if_splits)
  with assms 1 2 obtain s4 where 4: "re_lit CHR ''.'' s3 = Some s4"
    by (auto simp: match_version_def split: option.splits if_splits)
  with assms 1 2 3 obtain s5 where 5: "re_plus is_digit s4 = Some (g3, s5)"
    by (auto simp: match_version_def split: option.splits if_splits)
  have 6: "case match_prerelease s5 of
             Some (x, y) \<Rightarrow> g4 = Some x \<and> g5 = y
           | None \<Rightarrow> re_end s5 \<and> g4 = None \<and> g5 = None"
    using assms 1 2 3 4 5 by (auto simp: match_version_def split: option.splits if_splits)
  have "s = g1 @ ''.'' @ g2 @ ''.'' @ g3 @ s5"
    using re_plus_Some [OF 1] re_plus_Some [OF 3] re_plus_Some [OF 5] 2 4
    by (simp add: re_lit_Some)
  moreover have "digits g1" "digits g2" "digits g3"
    using re_plus_Some [OF 1] re_plus_Some [OF 3] re_plus_Some [OF 5]
    by (simp_all add: digits_def)
  ultimately show ?thesis using 6 by blast
qed

lemma lstrip_v_digits:
  assumes "p = [] \<or> p = ''v''" "digits a"
  shows "lstrip_v (p @ a @ r) = a @ r"
proof -
  obtain x a' where a: "a = x # a'" "is_digit x"
    using assms(2) by (cases a) (auto simp: digits_def)
  then have "x \<noteq> CHR ''v''"
    using is_digit_simps(3) by blast
  then show ?thesis
    using assms(1) a by (auto simp: lstrip_v_def)
qed

lemma lenient_suffix_no_digit:
  "lenient_prerelease_suffix suf \<Longrightarrow> suf = [] \<or> \<not> is_digit (hd suf)"
  by (auto simp: lenient_prerelease_suffix_def is_digit_simps)

lemma lenient_suffix_match:
  assumes "lenient_prerelease_suffix suf"
  shows "suf = [] \<or> (\<exists>g4 g5. match_prerelease suf = Some (g4, g5))"
proof (cases "suf = []")
  case True
  then show ?thesis by simp
next
  case False
  then obtain i d n where "letters i" "d = [] \<or> d = ''.''" "list_all is_digit n"
      "suf = ''-'' @ i @ d @ n"
    using assms by (auto simp: lenient_prerelease_suffix_def)
  then show ?thesis
    using match_prerelease_complete [of i d n "[]"] by (simp add: re_end_simps)
qed

lemma parse_version_lenient:
  assumes "lenient_version_grammar s"
  shows "\<exists>v. parse_version s = Inr v"
proof -
  from assms obtain p a b c suf where h: "p = [] \<or> p = ''v''" "digits a" "digits b" "digits c"
      "lenient_prerelease_suffix suf" "s = p @ a @ ''.'' @ b @ ''.'' @ c @ suf"
    unfolding lenient_version_grammar_def by blast
  have l: "lstrip_v s = a @ ''.'' @ b @ ''.'' @ c @ suf"
    using lstrip_v_digits [OF h(1,2)] h(6) by simp
  have "\<exists>g. match_version (a @ ''.'' @ b @ ''.'' @ c @ suf) = Some g"
    using match_version_complete [OF h(2,3,4) lenient_suffix_no_digit [OF h(5)]]
      lenient_suffix_match [OF h(5)]
    by (auto simp: re_end_simps split: option.splits)
  then show ?thesis
    by (auto simp: parse_version_def l split: option.splits)
qed

lemma spec_grammar_lenient: "spec_version_grammar s \<Longrightarrow> lenient_version_grammar s"
proof -
  have "lenient_prerelease_suffix suf" if "spec_prerelease_suffix suf" for suf
    using that unfolding spec_prerelease_suffix_def lenient_prerelease_suffix_def
  proof (elim disjE exE conjE)
    fix i assume "letters i" "suf = ''-'' @ i"
    then have "letters i \<and> ([] = [] \<or> [] = ''.'') \<and> list_all is_digit [] \<and> suf = ''-'' @ i @ [] @ []"
      by simp
    then show "suf = [] \<or> (\<exists>i d n. letters i \<and> (d = [] \<or> d = ''.'') \<and> list_all is_digit n \<and> suf = ''-'' @ i @ d @ n)"
      by blast
  next
    fix i n assume "letters i" "digits n" "suf = ''-'' @ i @ ''.'' @ n"
    then have "letters i \<and> (''.'' = [] \<or> ''.'' = ''.'') \<and> list_all is_digit n \<and> suf = ''-'' @ i @ ''.'' @ n"
      by (simp add: digits_def)
    then show "suf = [] \<or> (\<exists>i d n. letters i \<and> (d = [] \<or> d = ''.'') \<and> list_all is_digit n \<and> suf = ''-'' @ i @ d @ n)"
      by blast
  qed simp
  then show "spec_version_grammar s \<Longrightarrow> lenient_version_grammar s"
    unfolding spec_version_grammar_def lenient_version_grammar_def by blast
qed

lemma parse_version_sound:
  assumes "parse_version s = Inr v" "\<not> prefix ''vv'' s" "newline \<notin> set s"
  shows "lenient_version_grammar s"
proof -
  from assms(1) obtain g1 g2 g3 g4 g5 where m: "match_version (lstrip_v s) = Some (g1, g2, g3, g4, g5)"
    by (auto simp: parse_version_def split: option.splits)
  from match_version_sound [OF m] obtain suf where d: "digits g1" "digits g2" "digits g3"
      and l: "lstrip_v s = g1 @ ''.'' @ g2 @ ''.'' @ g3 @ suf"
      and c: "case match_prerelease suf of
               Some (x, y) \<Rightarrow> g4 = Some x \<and> g5 = y
             | None \<Rightarrow> re_end suf \<and> g4 = None \<and> g5 = None"
    by blast
  define p where "p = takeWhile (\<lambda>c. c = CHR ''v'') s"
  have s: "s = p @ lstrip_v s"
    by (simp add: p_def lstrip_v_def)
  have pv: "list_all (\<lambda>c. c = CHR ''v'') p"
    unfolding p_def by (simp add: list_all_iff) (meson set_takeWhileD)
  have p: "p = [] \<or> p = ''v''"
  proof (cases p)
    case Nil
    then show ?thesis by simp
  next
    case (Cons x q)
    show ?thesis
    proof (cases q)
      case Nil
      then show ?thesis using Cons pv by simp
    next
      case (Cons y q')
      with \<open>p = x # q\<close> pv have "p = ''vv'' @ q'" by simp
      then have "prefix ''vv'' s" using s by (metis append.assoc prefixI)
      with assms(2) show ?thesis by simp
    qed
  qed
  have nl: "newline \<notin> set suf"
    using assms(3) s l by (metis Un_iff set_append)
  have "lenient_prerelease_suffix suf"
  proof (cases "match_prerelease suf")
    case None
    then have "re_end suf" using c by simp
    then have "suf = []" using nl by (auto simp: re_end_def)
    then show ?thesis by (simp add: lenient_prerelease_suffix_def)
  next
    case (Some a)
    obtain x y where "a = (x, y)" by (cases a)
    with Some match_prerelease_sound [of suf x y] obtain dd n t where h: "letters x"
        "dd = [] \<or> dd = ''.''" "list_all is_digit n" "re_end t" "suf = ''-'' @ x @ dd @ n @ t"
      by blast
    have "t = []" using nl h(4,5) by (auto simp: re_end_def)
    then show ?thesis using h unfolding lenient_prerelease_suffix_def by auto
  qed
  then show ?thesis
    unfolding lenient_version_grammar_def using p d l s by metis
qed

section \<open>Formatting and parsing a version\<close>

lemma digits_str: "0 \<le> i \<Longrightarrow> digits (str i)"
  by (simp add: str_def digits_def str_nat_digits str_nat_nonempty)

lemma int_of_str_str: "0 \<le> i \<Longrightarrow> int_of_str (str i) = i"
  by (simp add: str_def int_of_str_str_nat)

lemma match_prerelease_Nil: "match_prerelease [] = None"
  by (simp add: match_prerelease_def)

lemma match_version_plain:
  assumes "digits a" "digits b" "digits c"
  shows "match_version (a @ ''.'' @ b @ ''.'' @ c) = Some (a, b, c, None, None)"
  using match_version_complete [OF assms, of "[]"]
  by (simp add: match_prerelease_Nil re_end_simps)

lemma match_version_pre:
  assumes "digits a" "digits b" "digits c" "letters i"
  shows "match_version (a @ ''.'' @ b @ ''.'' @ c @ ''-'' @ i) = Some (a, b, c, Some i, None)"
  using match_version_complete [OF assms(1,2,3), of "''-'' @ i"]
    match_prerelease_complete [OF assms(4), of "[]" "[]" "[]"]
  by (simp add: re_end_simps is_digit_simps)

lemma match_version_pre_num:
  assumes "digits a" "digits b" "digits c" "letters i" "digits n"
  shows "match_version (a @ ''.'' @ b @ ''.'' @ c @ ''-'' @ i @ ''.'' @ n) = Some (a, b, c, Some i, Some n)"
proof -
  have "match_prerelease (''-'' @ i @ ''.'' @ n) = Some (i, Some n)"
    using match_prerelease_complete [OF assms(4), of "''.''" n "[]"] assms(5)
    by (simp add: re_end_simps digits_def)
  then show ?thesis
    using match_version_complete [OF assms(1,2,3), of "''-'' @ i @ ''.'' @ n"]
    by (simp add: is_digit_simps)
qed

lemma parse_format_version:
  assumes "valid_version (major, minor, patch, pre_type, pre_num)" "pfx = [] \<or> pfx = ''v''"
  shows "parse_version (format_version major minor patch pre_type pre_num pfx) =
           Inr (major, minor, patch, pre_type, pre_num)"
proof -
  have nn: "0 \<le> major" "0 \<le> minor" "0 \<le> patch"
    using assms(1) by (simp_all add: valid_version_def)
  note d = digits_str [OF nn(1)] digits_str [OF nn(2)] digits_str [OF nn(3)]
  note i = int_of_str_str [OF nn(1)] int_of_str_str [OF nn(2)] int_of_str_str [OF nn(3)]
  have strip: "lstrip_v (pfx @ str major @ r) = str major @ r" for r
    using lstrip_v_digits [OF assms(2) d(1)] .
  show ?thesis
  proof (cases pre_type)
    case None
    then have "pre_num = None" using assms(1) by (simp add: valid_version_def)
    then show ?thesis
      using None strip [of "''.'' @ str minor @ ''.'' @ str patch"] match_version_plain [OF d]
      by (simp add: format_version_def parse_version_def i)
  next
    case (Some t)
    then have t: "letters t" using assms(1) by (simp add: valid_version_def)
    then have tn: "t \<noteq> []" by (simp add: letters_def)
    show ?thesis
    proof (cases pre_num)
      case None
      then show ?thesis
        using Some tn strip [of "''.'' @ str minor @ ''.'' @ str patch @ ''-'' @ t"]
          match_version_pre [OF d t]
        by (simp add: format_version_def parse_version_def i)
    next
      case (Some n)
      then have n: "0 \<le> n" using assms(1) \<open>pre_type = Some t\<close> by (simp add: valid_version_def)
      show ?thesis
        using Some \<open>pre_type = Some t\<close> tn
          strip [of "''.'' @ str minor @ ''.'' @ str patch @ ''-'' @ t @ ''.'' @ str n"]
          match_version_pre_num [OF d t digits_str [OF n]]
        by (simp add: format_version_def parse_version_def i int_of_str_str [OF n])
    qed
  qed
qed

lemma format_version_shape:
  "\<exists>r. format_version major minor patch pre_type pre_num pfx = pfx @ str major @ r"
  by (simp add: format_version_def Let_def split: option.splits)

lemma version_prefix_format:
  assumes "0 \<le> major" "pfx = [] \<or> pfx = ''v''"
  shows "version_prefix (format_version major minor patch pre_type pre_num pfx) = pfx"
proof -
  obtain r where r: "format_version major minor patch pre_type pre_num pfx = pfx @ str major @ r"
    using format_version_shape by blast
  obtain x a where a: "str major = x # a" "is_digit x"
    using digits_str [OF assms(1)] by (cases "str major") (auto simp: digits_def)
  then have "x \<noteq> CHR ''v''" using is_digit_simps(3) by blast
  then show ?thesis
    using assms(2) a by (auto simp: r version_prefix_def)
qed

lemma bump_version_format:
  assumes "valid_version (major, minor, patch, pre_type, pre_num)" "pfx = [] \<or> pfx = ''v''"
  shows "bump_version (format_version major minor patch pre_type pre_num pfx) bump_type preid =
     Inr (case bump_type of
            MAJOR \<Rightarrow> format_version (major + 1) 0 0 None None pfx
          | MINOR \<Rightarrow> format_version major (minor + 1) 0 None None pfx
          | PATCH \<Rightarrow>
              if pre_type \<noteq> None
              then format_version major minor patch None None pfx
              else format_version major minor (patch + 1) None None pfx
          | PREMAJOR \<Rightarrow> format_version (major + 1) 0 0 (Some preid) (Some 0) pfx
          | PREMINOR \<Rightarrow> format_version major (minor + 1) 0 (Some preid) (Some 0) pfx
          | PREPATCH \<Rightarrow> format_version major minor (patch + 1) (Some preid) (Some 0) pfx
          | PRERELEASE \<Rightarrow>
              if pre_type \<noteq> None
              then format_version major minor patch pre_type
                     (Some ((case pre_num of None \<Rightarrow> 0 | Some n \<Rightarrow> n) + 1)) pfx
              else format_version major minor (patch + 1) (Some preid) (Some 0) pfx)"
proof -
  have m: "0 \<le> major" using assms(1) by (simp add: valid_version_def)
  have e: "pre_type \<noteq> Some []"
    using assms(1) by (auto simp: valid_version_def letters_def)
  show ?thesis
    using e
    by (auto simp: bump_version_def parse_format_version [OF assms]
        version_prefix_format [OF m assms(2)] Let_def split: BumpType.splits)
qed

lemma spec_grammar_groups:
  assumes "spec_version_grammar s"
  shows "\<exists>p a b c g4 g5. (p = [] \<or> p = ''v'') \<and>
           match_version (lstrip_v s) = Some (a, b, c, g4, g5) \<and>
           s = p @ a @ ''.'' @ b @ ''.'' @ c @
               (case g4 of None \<Rightarrow> [] | Some i \<Rightarrow> ''-'' @ i @ (case g5 of None \<Rightarrow> [] | Some n \<Rightarrow> ''.'' @ n))"
proof -
  from assms obtain p a b c suf where h: "p = [] \<or> p = ''v''" "digits a" "digits b" "digits c"
      "spec_prerelease_suffix suf" "s = p @ a @ ''.'' @ b @ ''.'' @ c @ suf"
    unfolding spec_version_grammar_def by blast
  have l: "lstrip_v s = a @ ''.'' @ b @ ''.'' @ c @ suf"
    using lstrip_v_digits [OF h(1,2)] h(6) by simp
  from h(5) consider "suf = []" | i where "letters i" "suf = ''-'' @ i"
    | i n where "letters i" "digits n" "suf = ''-'' @ i @ ''.'' @ n"
    unfolding spec_prerelease_suffix_def by blast
  then show ?thesis
  proof cases
    case 1
    then have "match_version (lstrip_v s) = Some (a, b, c, None, None)"
      using match_version_plain [OF h(2,3,4)] l by simp
    then show ?thesis using h(1,6) 1 by force
  next
    case 2
    then have "match_version (lstrip_v s) = Some (a, b, c, Some i, None)"
      using match_version_pre [OF h(2,3,4) 2(1)] l by simp
    then show ?thesis using h(1,6) 2 by force
  next
    case 3
    then have "match_version (lstrip_v s) = Some (a, b, c, Some i, Some n)"
      using match_version_pre_num [OF h(2,3,4) 3(1,2)] l by simp
    then show ?thesis using h(1,6) 3 by force
  qed
qed

lemma letters_beta: "letters ''beta''" "letters ''rc''" "letters ''alpha''"
  by (simp_all add: letters_def is_letter_def code_point_def)

section \<open>Claims about versions\<close>

text \<open>
  C1, as amended. \<open>parse_version\<close> never fails on a string of the shape
  \<open>[v]MAJOR.MINOR.PATCH[-IDENT[.NUM]]\<close> (ASCII digits and letters). On a string of
  code points below 256 (every ASCII string is one) with at most one leading \<open>v\<close> and no
  newline it succeeds exactly when the string has the shape
  \<open>[v]MAJOR.MINOR.PATCH[-IDENT[.][NUM]]\<close>, where the dot and the number after the
  identifier are each optional, and it fails with \<open>InvalidVersion\<close> on every other such
  string. Strings with several leading \<open>v\<close>, with a newline, or with code points from
  256 on (among them the decimal digits of other scripts, which \<open>\d\<close> and \<open>int\<close> also
  take) are outside this statement.
\<close>

theorem parse_version_grammar:
  "(spec_version_grammar s \<longrightarrow> (\<exists>v. parse_version s = Inr v)) \<and>
   (\<not> prefix ''vv'' s \<and> newline \<notin> set s \<longrightarrow>
      ((\<exists>v. parse_version s = Inr v) \<longleftrightarrow> lenient_version_grammar s) \<and>
      (parse_version s = Inl InvalidVersion \<longleftrightarrow> \<not> lenient_version_grammar s))"
proof (intro conjI impI)
  assume "spec_version_grammar s"
  then show "\<exists>v. parse_version s = Inr v"
    using parse_version_lenient spec_grammar_lenient by blast
next
  assume h: "\<not> prefix ''vv'' s \<and> newline \<notin> set s"
  show iff: "(\<exists>v. parse_version s = Inr v) \<longleftrightarrow> lenient_version_grammar s"
    using parse_version_lenient parse_version_sound h by blast
  have "parse_version s = Inl InvalidVersion \<longleftrightarrow> \<not> (\<exists>v. parse_version s = Inr v)"
    by (cases "parse_version s") (auto intro: error.exhaust)
  then show "parse_version s = Inl InvalidVersion \<longleftrightarrow> \<not> lenient_version_grammar s"
    using iff by blast
qed

theorem parse_version_grammar_witness:
  "spec_version_grammar ''v1.2.3'' \<and> (\<exists>v. parse_version ''v1.2.3'' = Inr v) \<and>
   \<not> prefix ''vv'' ''1.2.3-rc1'' \<and> newline \<notin> set ''1.2.3-rc1'' \<and>
   lenient_version_grammar ''1.2.3-rc1'' \<and>
   \<not> prefix ''vv'' ''1.2'' \<and> newline \<notin> set ''1.2'' \<and> \<not> lenient_version_grammar ''1.2''"
proof -
  have d: "digits ''1''" "digits ''2''" "digits ''3''"
    by (simp_all add: digits_def is_digit_def code_point_def)
  have "(''v'' = [] \<or> ''v'' = ''v'') \<and> digits ''1'' \<and> digits ''2'' \<and> digits ''3'' \<and>
        spec_prerelease_suffix [] \<and> ''v1.2.3'' = ''v'' @ ''1'' @ ''.'' @ ''2'' @ ''.'' @ ''3'' @ []"
    using d by (simp add: spec_prerelease_suffix_def)
  then have g: "spec_version_grammar ''v1.2.3''"
    unfolding spec_version_grammar_def by blast
  have a: "\<not> prefix ''vv'' ''1.2.3-rc1'' \<and> newline \<notin> set ''1.2.3-rc1''"
    by (simp add: newline_def)
  have b: "\<not> prefix ''vv'' ''1.2'' \<and> newline \<notin> set ''1.2''"
    by (simp add: newline_def)
  have p: "parse_version ''1.2.3-rc1'' = Inr (1, 2, 3, Some ''rc'', Some 1)"
    by code_simp
  have q: "parse_version ''1.2'' = Inl InvalidVersion"
    by code_simp
  show ?thesis
    using g a b p q parse_version_grammar [of "''v1.2.3''"]
      parse_version_grammar [of "''1.2.3-rc1''"] parse_version_grammar [of "''1.2''"]
    by blast
qed

text \<open>
  C1 as stated fails: \<open>1.2.3-rc1\<close> has a number without a dot, so it is not of the shape
  \<open>[v]MAJOR.MINOR.PATCH[-IDENT[.NUM]]\<close>, and \<open>parse_version\<close> accepts it.
\<close>

theorem parse_version_grammar_counterexample:
  "parse_version ''1.2.3-rc1'' = Inr (1, 2, 3, Some ''rc'', Some 1) \<and>
   \<not> spec_version_grammar ''1.2.3-rc1''"
proof
  show "parse_version ''1.2.3-rc1'' = Inr (1, 2, 3, Some ''rc'', Some 1)"
    by code_simp
  have m: "match_version (lstrip_v ''1.2.3-rc1'') = Some (''1'', ''2'', ''3'', Some ''rc'', Some ''1'')"
    by code_simp
  show "\<not> spec_version_grammar ''1.2.3-rc1''"
  proof
    assume "spec_version_grammar ''1.2.3-rc1''"
    from spec_grammar_groups [OF this] m
    have "\<exists>p. (p = [] \<or> p = ''v'') \<and> ''1.2.3-rc1'' = p @ ''1.2.3-rc.1''"
      by auto
    then show False by auto
  qed
qed

text \<open>
  C5. For every SemanticVersion (components not negative, prerelease absent or with a
  non-empty identifier of letters and an optional number that is not negative, prefix
  empty or \<open>v\<close>), parsing the formatted version gives the version back, and the prefix
  read off the formatted string is the prefix that was formatted.
\<close>

theorem parse_format_roundtrip:
  assumes "valid_version (major, minor, patch, pre_type, pre_num)" "pfx = [] \<or> pfx = ''v''"
  shows "parse_version (format_version major minor patch pre_type pre_num pfx) =
           Inr (major, minor, patch, pre_type, pre_num) \<and>
         version_prefix (format_version major minor patch pre_type pre_num pfx) = pfx"
proof -
  have "0 \<le> major" using assms(1) by (simp add: valid_version_def)
  then show ?thesis
    using parse_format_version [OF assms] version_prefix_format [OF _ assms(2)] by simp
qed

theorem parse_format_roundtrip_witness:
  "valid_version (1, 2, 3, Some ''beta'', Some 4) \<and>
   parse_version (format_version 1 2 3 (Some ''beta'') (Some 4) ''v'') =
     Inr (1, 2, 3, Some ''beta'', Some 4) \<and>
   version_prefix (format_version 1 2 3 (Some ''beta'') (Some 4) ''v'') = ''v'' \<and>
   format_version 1 2 3 (Some ''beta'') (Some 4) ''v'' = ''v1.2.3-beta.4''"
proof -
  have h: "valid_version (1, 2, 3, Some ''beta'', Some 4)"
    by (simp add: valid_version_def letters_beta)
  have f: "format_version 1 2 3 (Some ''beta'') (Some 4) ''v'' = ''v1.2.3-beta.4''"
    by code_simp
  show ?thesis
    using h f parse_format_roundtrip [OF h, of "''v''"] by simp
qed

text \<open>
  C4. For every valid SemanticVersion, the patch bump of a version with a prerelease
  returns (major, minor, patch) with the prerelease removed and no component
  incremented, and the patch bump of a version without one returns
  (major, minor, patch + 1) with no prerelease.
\<close>

theorem bump_patch:
  assumes "valid_version (major, minor, patch, pre_type, pre_num)" "pfx = [] \<or> pfx = ''v''"
  shows "\<exists>new. bump_version (format_version major minor patch pre_type pre_num pfx) PATCH preid =
             Inr new \<and>
           new = format_version major minor (if pre_type = None then patch + 1 else patch)
                   None None pfx \<and>
           parse_version new =
             Inr (major, minor, if pre_type = None then patch + 1 else patch, None, None)"
proof -
  have "valid_version (major, minor, if pre_type = None then patch + 1 else patch, None, None)"
    using assms(1) by (simp add: valid_version_def)
  from parse_format_version [OF this assms(2)] show ?thesis
    using bump_version_format [OF assms, of PATCH preid] by (cases pre_type) simp_all
qed

theorem bump_patch_witness:
  "valid_version (1, 2, 3, Some ''beta'', Some 4) \<and>
   bump_version ''v1.2.3-beta.4'' PATCH ''alpha'' = Inr ''v1.2.3'' \<and>
   parse_version ''v1.2.3'' = Inr (1, 2, 3, None, None) \<and>
   valid_version (1, 2, 3, None, None) \<and>
   bump_version ''1.2.3'' PATCH ''alpha'' = Inr ''1.2.4'' \<and>
   parse_version ''1.2.4'' = Inr (1, 2, 4, None, None)"
proof -
  have h1: "valid_version (1, 2, 3, Some ''beta'', Some 4)"
    by (simp add: valid_version_def letters_beta)
  have h2: "valid_version (1, 2, 3, None, None)"
    by (simp add: valid_version_def)
  have f: "format_version 1 2 3 (Some ''beta'') (Some 4) ''v'' = ''v1.2.3-beta.4''"
      "format_version 1 2 3 None None ''v'' = ''v1.2.3''"
      "format_version 1 2 3 None None [] = ''1.2.3''"
      "format_version 1 2 4 None None [] = ''1.2.4''"
    by code_simp+
  show ?thesis
    using h1 h2 bump_patch [OF h1, of "''v''" "''alpha''"] bump_patch [OF h2, of "[]" "''alpha''"]
    by (simp add: f)
qed

text \<open>
  C7. From the release version 1.2.3 the prerelease bump with the identifier
  \<open>alpha\<close> gives 1.2.4-alpha.0, and applied to that it gives 1.2.4-alpha.1. In general,
  when the current version has a prerelease, the prerelease bump keeps
  (major, minor, patch) and adds 1 to the prerelease number, a missing number counting
  as 0.
\<close>

theorem bump_prerelease:
  "bump_version ''1.2.3'' PRERELEASE ''alpha'' = Inr ''1.2.4-alpha.0'' \<and>
   bump_version ''1.2.4-alpha.0'' PRERELEASE ''alpha'' = Inr ''1.2.4-alpha.1'' \<and>
   (valid_version (major, minor, patch, Some i, pre_num) \<and> (pfx = [] \<or> pfx = ''v'') \<longrightarrow>
      (\<exists>new. bump_version (format_version major minor patch (Some i) pre_num pfx) PRERELEASE preid =
           Inr new \<and>
         parse_version new =
           Inr (major, minor, patch, Some i, Some ((case pre_num of None \<Rightarrow> 0 | Some n \<Rightarrow> n) + 1))))"
proof (intro conjI impI)
  show "bump_version ''1.2.3'' PRERELEASE ''alpha'' = Inr ''1.2.4-alpha.0''"
    by code_simp
  show "bump_version ''1.2.4-alpha.0'' PRERELEASE ''alpha'' = Inr ''1.2.4-alpha.1''"
    by code_simp
next
  assume h: "valid_version (major, minor, patch, Some i, pre_num) \<and> (pfx = [] \<or> pfx = ''v'')"
  then have "valid_version (major, minor, patch, Some i, Some ((case pre_num of None \<Rightarrow> 0 | Some n \<Rightarrow> n) + 1))"
    by (auto simp: valid_version_def split: option.splits)
  from parse_format_version [OF this] h
  show "\<exists>new. bump_version (format_version major minor patch (Some i) pre_num pfx) PRERELEASE preid =
           Inr new \<and>
         parse_version new =
           Inr (major, minor, patch, Some i, Some ((case pre_num of None \<Rightarrow> 0 | Some n \<Rightarrow> n) + 1))"
    using bump_version_format [of major minor patch "Some i" pre_num pfx PRERELEASE preid] by simp
qed

theorem bump_prerelease_witness:
  "valid_version (1, 2, 3, Some ''rc'', None) \<and>
   format_version 1 2 3 (Some ''rc'') None ''v'' = ''v1.2.3-rc'' \<and>
   (\<exists>new. bump_version ''v1.2.3-rc'' PRERELEASE ''alpha'' = Inr new \<and>
      parse_version new = Inr (1, 2, 3, Some ''rc'', Some 1))"
proof -
  have h: "valid_version (1, 2, 3, Some ''rc'', None)"
    by (simp add: valid_version_def letters_beta)
  have f: "format_version 1 2 3 (Some ''rc'') None ''v'' = ''v1.2.3-rc''"
    by code_simp
  show ?thesis
    using h f bump_prerelease [of 1 2 3 "''rc''" None "''v''" "''alpha''"] by simp
qed

text \<open>
  C9. When the current version already has a prerelease, the prerelease bump keeps its
  identifier and ignores the supplied one: the result is the same for every supplied
  identifier, and \<open>1.2.3-beta.1\<close> becomes \<open>1.2.3-beta.2\<close> although \<open>alpha\<close> is supplied.
  The supplied identifier is used when the current version has no prerelease.
\<close>

theorem prerelease_identifier_kept:
  "bump_version ''1.2.3-beta.1'' PRERELEASE ''alpha'' = Inr ''1.2.3-beta.2'' \<and>
   (valid_version (major, minor, patch, Some i, pre_num) \<and> (pfx = [] \<or> pfx = ''v'') \<longrightarrow>
      bump_version (format_version major minor patch (Some i) pre_num pfx) PRERELEASE preid =
        Inr (format_version major minor patch (Some i)
               (Some ((case pre_num of None \<Rightarrow> 0 | Some n \<Rightarrow> n) + 1)) pfx) \<and>
      bump_version (format_version major minor patch (Some i) pre_num pfx) PRERELEASE preid =
        bump_version (format_version major minor patch (Some i) pre_num pfx) PRERELEASE preid') \<and>
   (valid_version (major, minor, patch, None, None) \<and> (pfx = [] \<or> pfx = ''v'') \<longrightarrow>
      bump_version (format_version major minor patch None None pfx) PRERELEASE preid =
        Inr (format_version major minor (patch + 1) (Some preid) (Some 0) pfx))"
proof (intro conjI impI)
  show "bump_version ''1.2.3-beta.1'' PRERELEASE ''alpha'' = Inr ''1.2.3-beta.2''"
    by code_simp
next
  assume h: "valid_version (major, minor, patch, Some i, pre_num) \<and> (pfx = [] \<or> pfx = ''v'')"
  then show "bump_version (format_version major minor patch (Some i) pre_num pfx) PRERELEASE preid =
        Inr (format_version major minor patch (Some i)
               (Some ((case pre_num of None \<Rightarrow> 0 | Some n \<Rightarrow> n) + 1)) pfx)"
    using bump_version_format [of major minor patch "Some i" pre_num pfx PRERELEASE preid] by simp
  from h show "bump_version (format_version major minor patch (Some i) pre_num pfx) PRERELEASE preid =
        bump_version (format_version major minor patch (Some i) pre_num pfx) PRERELEASE preid'"
    using bump_version_format [of major minor patch "Some i" pre_num pfx PRERELEASE preid]
      bump_version_format [of major minor patch "Some i" pre_num pfx PRERELEASE preid'] by simp
next
  assume "valid_version (major, minor, patch, None, None) \<and> (pfx = [] \<or> pfx = ''v'')"
  then show "bump_version (format_version major minor patch None None pfx) PRERELEASE preid =
        Inr (format_version major minor (patch + 1) (Some preid) (Some 0) pfx)"
    using bump_version_format [of major minor patch None None pfx PRERELEASE preid] by simp
qed

theorem prerelease_identifier_kept_witness:
  "valid_version (1, 2, 3, Some ''beta'', Some 1) \<and>
   format_version 1 2 3 (Some ''beta'') (Some 1) [] = ''1.2.3-beta.1'' \<and>
   bump_version ''1.2.3-beta.1'' PRERELEASE ''rc'' = Inr ''1.2.3-beta.2'' \<and>
   bump_version ''1.2.3-beta.1'' PRERELEASE ''rc'' = bump_version ''1.2.3-beta.1'' PRERELEASE ''alpha'' \<and>
   valid_version (1, 2, 3, None, None) \<and>
   format_version 1 2 3 None None [] = ''1.2.3'' \<and>
   bump_version ''1.2.3'' PRERELEASE ''rc'' = Inr ''1.2.4-rc.0''"
proof -
  have h1: "valid_version (1, 2, 3, Some ''beta'', Some 1)"
    by (simp add: valid_version_def letters_beta)
  have h2: "valid_version (1, 2, 3, None, None)"
    by (simp add: valid_version_def)
  have f: "format_version 1 2 3 (Some ''beta'') (Some 1) [] = ''1.2.3-beta.1''"
      "format_version 1 2 3 (Some ''beta'') (Some 2) [] = ''1.2.3-beta.2''"
      "format_version 1 2 3 None None [] = ''1.2.3''"
      "format_version 1 2 4 (Some ''rc'') (Some 0) [] = ''1.2.4-rc.0''"
    by code_simp+
  show ?thesis
    using h1 h2
      prerelease_identifier_kept [of 1 2 3 "''beta''" "Some 1" "[]" "''rc''" "''alpha''"]
    by (simp add: f)
qed

section \<open>The bump suggestion\<close>

lemma code_point_lower_char:
  "code_point (lower_char c) =
     (if (65 \<le> code_point c \<and> code_point c \<le> 90) \<or> (192 \<le> code_point c \<and> code_point c \<le> 214) \<or>
         (216 \<le> code_point c \<and> code_point c \<le> 222)
      then code_point c + 32 else code_point c)"
  by (auto simp: lower_char_def code_point_def Let_def)

lemma code_point_inj: "code_point a = code_point b \<longleftrightarrow> a = b"
  by (simp add: code_point_def)

lemma lower_char_bang: "lower_char c = CHR ''!'' \<longleftrightarrow> c = CHR ''!''"
proof -
  have "code_point (lower_char c) = 33 \<longleftrightarrow> code_point c = 33"
    by (simp add: code_point_lower_char)
  moreover have "code_point CHR ''!'' = 33" by (simp add: code_point_def)
  ultimately show ?thesis by (metis code_point_inj)
qed

lemma lower_char_colon: "lower_char c = CHR '':'' \<longleftrightarrow> c = CHR '':''"
proof -
  have "code_point (lower_char c) = 58 \<longleftrightarrow> code_point c = 58"
    by (simp add: code_point_lower_char)
  moreover have "code_point CHR '':'' = 58" by (simp add: code_point_def)
  ultimately show ?thesis by (metis code_point_inj)
qed

lemma bang_in_header_lower:
  "CHR ''!'' \<in> set (takeWhile (\<lambda>x. x \<noteq> CHR '':'') (lower s)) \<longleftrightarrow>
   CHR ''!'' \<in> set (takeWhile (\<lambda>x. x \<noteq> CHR '':'') s)"
proof -
  have "takeWhile (\<lambda>x. x \<noteq> CHR '':'') (lower s) = map lower_char (takeWhile (\<lambda>x. x \<noteq> CHR '':'') s)"
    by (simp add: lower_def takeWhile_map comp_def lower_char_colon)
  then show ?thesis
    using lower_char_bang by (metis (no_types, lifting) image_iff list.set_map)
qed

lemma analyze_loop_flags:
  "analyze_loop has_breaking has_feat commits =
     (has_breaking \<or> (\<exists>c\<in>set commits. CHR ''!'' \<in> set (takeWhile (\<lambda>x. x \<noteq> CHR '':'') (subject c)) \<or>
                                         sublist ''breaking'' (lower (subject c))),
      has_feat \<or> (\<exists>c\<in>set commits. prefix ''feat'' (lower (subject c))))"
proof (induction commits arbitrary: has_breaking has_feat)
  case Nil
  then show ?case by simp
next
  case (Cons c commits)
  show ?case
    by (simp only: analyze_loop.simps Let_def Cons.IH bang_in_header_lower) auto
qed

text \<open>
  C2, as amended. \<open>analyze_commits\<close> returns major exactly when some subject has a \<open>!\<close>
  anywhere before its first colon (anywhere in the subject when it has no colon) or
  contains "breaking" in any case; otherwise it returns minor exactly when some
  lower-cased subject starts with "feat"; otherwise it returns patch.
\<close>

theorem analyze_commits_rule:
  "analyze_commits commits =
     (if \<exists>c\<in>set commits. CHR ''!'' \<in> set (takeWhile (\<lambda>x. x \<noteq> CHR '':'') (subject c)) \<or>
                              sublist ''breaking'' (lower (subject c))
      then MAJOR
      else if \<exists>c\<in>set commits. prefix ''feat'' (lower (subject c)) then MINOR
      else PATCH)"
  by (simp add: analyze_commits_def analyze_loop_flags)

theorem analyze_commits_rule_witness:
  "analyze_commits [\<lparr>hash = ''a1b2c3d4'', subject = ''Feature flags: tidy up''\<rparr>,
                    \<lparr>hash = ''e5f6a7b8'', subject = ''fix: crash on null''\<rparr>] = MINOR \<and>
   analyze_commits [\<lparr>hash = ''a1b2c3d4'', subject = ''feat: add login''\<rparr>,
                    \<lparr>hash = ''e5f6a7b8'', subject = ''fix!: crash on null''\<rparr>] = MAJOR"
proof -
  have l: "lower ''Feature flags: tidy up'' = ''feature flags: tidy up''"
      "lower ''fix: crash on null'' = ''fix: crash on null''"
      "lower ''feat: add login'' = ''feat: add login''"
      "lower ''fix!: crash on null'' = ''fix!: crash on null''"
    by code_simp+
  have s: "\<not> sublist ''breaking'' ''feature flags: tidy up''"
      "\<not> sublist ''breaking'' ''fix: crash on null''"
    by code_simp+
  show ?thesis
    using analyze_commits_rule [of "[\<lparr>hash = ''a1b2c3d4'', subject = ''Feature flags: tidy up''\<rparr>,
                    \<lparr>hash = ''e5f6a7b8'', subject = ''fix: crash on null''\<rparr>]"]
      analyze_commits_rule [of "[\<lparr>hash = ''a1b2c3d4'', subject = ''feat: add login''\<rparr>,
                    \<lparr>hash = ''e5f6a7b8'', subject = ''fix!: crash on null''\<rparr>]"]
    by (simp add: l s)
qed

text \<open>
  C2 as stated fails. A subject with a \<open>!\<close> and no colon has no \<open>!\<close> immediately before
  a header colon, yet \<open>analyze_commits\<close> returns major; a subject whose first word is
  "feature" does not have the type "feat", yet \<open>analyze_commits\<close> returns minor.
\<close>

theorem analyze_commits_rule_counterexample:
  "analyze_commits [\<lparr>hash = ''a1b2c3d4'', subject = ''wow! fixed typo''\<rparr>] = MAJOR \<and>
   spec_suggest [''wow! fixed typo''] = PATCH \<and>
   analyze_commits [\<lparr>hash = ''a1b2c3d4'', subject = ''feature: dark mode''\<rparr>] = MINOR \<and>
   spec_suggest [''feature: dark mode''] = PATCH"
  by code_simp

section \<open>The commit pattern\<close>

lemma not_word_char:
  "\<not> is_word_char CHR ''(''" "\<not> is_word_char CHR ''!''" "\<not> is_word_char CHR '':''"
  by (simp_all add: is_word_char_def code_point_def Let_def)

lemma space_not_word: "is_space c \<Longrightarrow> \<not> is_word_char c"
  unfolding is_word_char_def is_space_def Let_def by presburger

lemma not_space:
  "\<not> is_space CHR ''(''" "\<not> is_space CHR ''!''" "\<not> is_space CHR '':''"
  by (simp_all add: is_space_def code_point_def Let_def)

lemma is_space_neq: "is_space c \<Longrightarrow> c \<noteq> CHR ''('' \<and> c \<noteq> CHR ''!'' \<and> c \<noteq> CHR '':''"
  using not_space by blast

lemma hd_spaces_colon:
  assumes "list_all is_space ws"
  shows "is_space (hd (ws @ CHR '':'' # r)) \<or> hd (ws @ CHR '':'' # r) = CHR '':''"
  using assms by (cases ws) auto

lemma match_scope_Some:
  assumes "x \<noteq> []" "CHR '')'' \<notin> set x"
  shows "match_scope (''('' @ x @ '')'' @ r) = (Some x, r)"
proof -
  have "list_all (\<lambda>c. c \<noteq> CHR '')'') x"
    using assms(2) by (auto simp: list_all_iff)
  from takeWhile_run [OF this, of "CHR '')'' # r"] show ?thesis
    using assms(1) by simp
qed

lemma match_scope_None: "s = [] \<or> hd s \<noteq> CHR ''('' \<Longrightarrow> match_scope s = (None, s)"
  by (cases s) auto

lemma match_scope_empty: "match_scope (''()'' @ r) = (None, ''()'' @ r)"
  by simp

lemma match_scope_sound:
  assumes "match_scope s = (g, r)"
  shows "s = scope_text g @ r \<and> (case g of None \<Rightarrow> True | Some x \<Rightarrow> x \<noteq> [] \<and> CHR '')'' \<notin> set x)"
proof (cases s)
  case Nil
  then show ?thesis using assms by (simp add: scope_text_def)
next
  case (Cons a t)
  define x where "x = takeWhile (\<lambda>c. c \<noteq> CHR '')'') t"
  define d where "d = dropWhile (\<lambda>c. c \<noteq> CHR '')'') t"
  have t: "t = x @ d" by (simp add: x_def d_def)
  show ?thesis
  proof (cases "a = CHR ''('' \<and> x \<noteq> [] \<and> d \<noteq> []")
    case False
    then have "g = None" "r = s"
      using assms Cons unfolding x_def d_def by auto
    then show ?thesis by (simp add: scope_text_def)
  next
    case True
    then have g: "g = Some x" and r: "r = tl d"
      using assms Cons unfolding x_def d_def by auto
    have "hd d = CHR '')''"
      using True hd_dropWhile [of "\<lambda>c. c \<noteq> CHR '')''" t] unfolding d_def by simp
    then have "d = CHR '')'' # r"
      using True r by (cases d) simp_all
    then have "s = ''('' @ x @ '')'' @ r"
      using Cons True t by simp
    moreover have "CHR '')'' \<notin> set x"
      unfolding x_def using set_takeWhileD by fastforce
    ultimately show ?thesis using g True by (simp add: scope_text_def)
  qed
qed

lemma match_bang_sound: "match_bang s = (g, r) \<Longrightarrow> s = bang_text g @ r"
  by (cases s) (auto simp: bang_text_def split: if_splits)

lemma match_bang_text:
  "r = [] \<or> hd r \<noteq> CHR ''!'' \<Longrightarrow> match_bang (bang_text b @ r) = (b, r)"
  by (cases r) (auto simp: bang_text_def)

lemma match_rest_line:
  assumes "newline \<notin> set t"
  shows "match_rest t = (if t = [] then None else Some t)"
proof -
  have "list_all (\<lambda>c. c \<noteq> newline) t"
    using assms by (auto simp: list_all_iff)
  from takeWhile_run [OF this, of "[]"]
  have tw: "takeWhile (\<lambda>c. c \<noteq> newline) t = t" "dropWhile (\<lambda>c. c \<noteq> newline) t = []"
    by simp_all
  show ?thesis
    unfolding match_rest_def Let_def tw re_end_def by simp
qed

lemma match_message_line:
  assumes "newline \<notin> set r"
  shows "match_message k r = (if r = [] then None else Some (drop (min k (length r - 1)) r))"
proof (induction k)
  case 0
  then show ?case using assms by (simp add: match_rest_line)
next
  case (Suc k)
  have n: "newline \<notin> set (drop (Suc k) r)"
    using assms by (meson in_set_dropD)
  show ?case
  proof (cases "Suc k < length r")
    case True
    then have "min (Suc k) (length r - 1) = Suc k" "r \<noteq> []" "drop (Suc k) r \<noteq> []"
      by auto
    then show ?thesis
      using match_rest_line [OF n] by simp
  next
    case False
    then have "min (Suc k) (length r - 1) = min k (length r - 1)" by simp
    then show ?thesis
      using False match_rest_line [OF n] Suc by simp
  qed
qed

lemma dropWhile_spaces_colon:
  assumes "list_all is_space ws"
  shows "dropWhile is_space (ws @ CHR '':'' # r) = CHR '':'' # r"
  using takeWhile_run [OF assms, of "CHR '':'' # r"] by (simp add: not_space)

lemma match_message_parts:
  assumes "list_all is_space ws" "msg \<noteq> []" "\<not> is_space (hd msg) \<or> tl msg = []"
    "newline \<notin> set (ws @ msg)"
  shows "match_message (length (takeWhile is_space (ws @ msg))) (ws @ msg) = Some msg"
proof (cases "is_space (hd msg)")
  case False
  then have "takeWhile is_space (ws @ msg) = ws"
    using takeWhile_run [OF assms(1), of msg] by simp
  moreover have "min (length ws) (length (ws @ msg) - 1) = length ws"
    using assms(2) by (cases msg) simp_all
  ultimately show ?thesis
    using assms(2) by (simp add: match_message_line [OF assms(4)])
next
  case True
  then obtain c where msg: "msg = [c]" "is_space c"
    using assms(2,3) by (cases msg) auto
  then have "list_all is_space (ws @ msg)" using assms(1) by simp
  from takeWhile_run [OF this, of "[]"] have tw: "takeWhile is_space (ws @ msg) = ws @ msg" by simp
  have "drop (min (length (ws @ msg)) (length (ws @ msg) - 1)) (ws @ msg) = msg"
    using msg by simp
  then show ?thesis
    unfolding tw match_message_line [OF assms(4)] using msg by simp
qed

lemma match_commit_complete:
  assumes "commit_parts subj ty sc bang msg" "newline \<notin> set subj"
  shows "match_commit subj = Some (ty, sc, bang, msg)"
proof -
  from assms(1) obtain ws1 ws2 where ty: "ty \<noteq> []" "list_all is_word_char ty"
      and sc: "case sc of None \<Rightarrow> True | Some x \<Rightarrow> x \<noteq> [] \<and> CHR '')'' \<notin> set x"
      and msg: "msg \<noteq> []" "\<not> is_space (hd msg) \<or> tl msg = []"
      and ws: "list_all is_space ws1" "list_all is_space ws2"
      and subj: "subj = ty @ scope_text sc @ bang_text bang @ ws1 @ '':'' @ ws2 @ msg"
    unfolding commit_parts_def by blast
  define r3 where "r3 = ws1 @ '':'' @ ws2 @ msg"
  define r2 where "r2 = bang_text bang @ r3"
  define r1 where "r1 = scope_text sc @ r2"
  have h3: "r3 \<noteq> [] \<and> (is_space (hd r3) \<or> hd r3 = CHR '':'')"
    unfolding r3_def using hd_spaces_colon [OF ws(1)] by simp
  have h2: "r2 \<noteq> [] \<and> (is_space (hd r2) \<or> hd r2 = CHR '':'' \<or> hd r2 = CHR ''!'')"
    unfolding r2_def using h3 by (cases bang) (auto simp: bang_text_def)
  have h1: "r1 \<noteq> [] \<and> (is_space (hd r1) \<or> hd r1 = CHR '':'' \<or> hd r1 = CHR ''!'' \<or> hd r1 = CHR ''('')"
    unfolding r1_def using h2 by (cases sc) (auto simp: scope_text_def)
  have "\<not> is_word_char (hd r1)"
    using h1 not_word_char space_not_word by auto
  moreover have "subj = ty @ r1"
    using subj by (simp add: r1_def r2_def r3_def)
  ultimately have 1: "re_plus is_word_char subj = Some (ty, r1)"
    using ty by (simp add: re_plus_run)
  have 2: "match_scope r1 = (sc, r2)"
  proof (cases sc)
    case None
    have "hd r2 \<noteq> CHR ''(''" using h2 is_space_neq by auto
    then show ?thesis using None by (simp add: r1_def scope_text_def match_scope_None)
  next
    case (Some x)
    then show ?thesis
      using sc match_scope_Some [of x r2] by (simp add: r1_def scope_text_def)
  qed
  have "hd r3 \<noteq> CHR ''!''" using h3 is_space_neq by auto
  then have 3: "match_bang r2 = (bang, r3)"
    unfolding r2_def by (simp add: match_bang_text)
  have 4: "re_lit CHR '':'' (dropWhile is_space r3) = Some (ws2 @ msg)"
    unfolding r3_def using dropWhile_spaces_colon [OF ws(1)] by simp
  have "newline \<notin> set (ws2 @ msg)" using assms(2) subj by simp
  from match_message_parts [OF ws(2) msg this]
  show ?thesis
    by (simp add: match_commit_def 1 2 3 4)
qed


lemma match_commit_sound:
  assumes "match_commit subj = Some (g1, g2, g3, g4)" "newline \<notin> set subj"
  shows "commit_parts subj g1 g2 g3 g4"
proof -
  from assms(1) obtain s1 where 1: "re_plus is_word_char subj = Some (g1, s1)"
    by (auto simp: match_commit_def split: option.splits prod.splits)
  obtain a s2 where 2: "match_scope s1 = (a, s2)" by (cases "match_scope s1")
  obtain b s3 where 3: "match_bang s2 = (b, s3)" by (cases "match_bang s2")
  from assms(1) 1 2 3 obtain s4 where 4: "re_lit CHR '':'' (dropWhile is_space s3) = Some s4"
    by (auto simp: match_commit_def split: option.splits)
  from assms(1) 1 2 3 4 have 5: "match_message (length (takeWhile is_space s4)) s4 = Some g4"
      and g: "g2 = a" "g3 = b"
    by (auto simp: match_commit_def split: option.splits)
  define ws1 where "ws1 = takeWhile is_space s3"
  have "dropWhile is_space s3 = CHR '':'' # s4"
    using 4 by (simp add: re_lit_Some)
  then have s3: "s3 = ws1 @ '':'' @ s4"
    unfolding ws1_def using takeWhile_dropWhile_id [of is_space s3] by simp
  have subj: "subj = g1 @ scope_text g2 @ bang_text g3 @ ws1 @ '':'' @ s4"
    using re_plus_Some [OF 1] match_scope_sound [OF 2] match_bang_sound [OF 3] s3 g by simp
  then have nl: "newline \<notin> set s4" using assms(2) by simp
  define n where "n = length (takeWhile is_space s4)"
  define k where "k = min n (length s4 - 1)"
  have s4: "s4 \<noteq> []" and g4: "g4 = drop k s4"
    using 5 unfolding match_message_line [OF nl] k_def n_def by (auto split: if_splits)
  define ws2 where "ws2 = take k s4"
  have kn: "k \<le> n" unfolding k_def by simp
  have "take n s4 = takeWhile is_space s4"
    unfolding n_def by (rule takeWhile_eq_take [symmetric])
  then have "ws2 = take k (takeWhile is_space s4)"
    unfolding ws2_def using kn by (metis min.absorb1 take_take)
  then have "set ws2 \<subseteq> set (takeWhile is_space s4)"
    by (simp add: set_take_subset)
  then have w2: "list_all is_space ws2"
    unfolding list_all_iff using set_takeWhileD by fastforce
  have w1: "list_all is_space ws1"
    unfolding ws1_def list_all_iff using set_takeWhileD by fastforce
  have "k < length s4"
    using s4 unfolding k_def by (cases s4) simp_all
  then have m: "g4 \<noteq> []"
    using g4 by simp
  have t: "\<not> is_space (hd g4) \<or> tl g4 = []"
  proof (cases "n < length s4")
    case True
    then have "k = n" unfolding k_def by simp
    then have "g4 = dropWhile is_space s4"
      using g4 unfolding n_def by (simp add: dropWhile_eq_drop)
    then show ?thesis using m hd_dropWhile by metis
  next
    case False
    then have "k = length s4 - 1"
      unfolding k_def by simp
    then have "length g4 = 1" using g4 s4 by (cases s4) simp_all
    then show ?thesis by (cases g4) simp_all
  qed
  have "s4 = ws2 @ g4" unfolding ws2_def g4 by simp
  then have "subj = g1 @ scope_text g2 @ bang_text g3 @ ws1 @ '':'' @ ws2 @ g4"
    using subj by simp
  moreover have "g1 \<noteq> []" "list_all is_word_char g1"
    using re_plus_Some [OF 1] by simp_all
  moreover have "case g2 of None \<Rightarrow> True | Some x \<Rightarrow> x \<noteq> [] \<and> CHR '')'' \<notin> set x"
    using match_scope_sound [OF 2] g by simp
  ultimately show ?thesis
    unfolding commit_parts_def using m t w1 w2 by blast
qed

lemma spec_grammar_after_type:
  assumes "spec_commit_grammar s"
  shows "dropWhile is_word_char s \<noteq> [] \<and>
         hd (dropWhile is_word_char s) \<in> {CHR ''('', CHR ''!'', CHR '':''}"
proof -
  from assms obtain ty sc bang msg ws where ty: "list_all is_word_char ty"
      and s: "s = ty @ scope_text sc @ bang_text bang @ '':'' @ ws @ msg"
    unfolding spec_commit_grammar_def spec_commit_parts_def by blast
  define r where "r = scope_text sc @ bang_text bang @ '':'' @ ws @ msg"
  have h: "r \<noteq> [] \<and> hd r \<in> {CHR ''('', CHR ''!'', CHR '':''}"
    unfolding r_def by (cases sc; cases bang) (simp_all add: scope_text_def bang_text_def)
  then have "\<not> is_word_char (hd r)"
    using not_word_char by auto
  then have "dropWhile is_word_char (ty @ r) = r"
    using takeWhile_run [OF ty, of r] by simp
  then show ?thesis using h s by (simp add: r_def)
qed

lemma match_commit_no_message:
  assumes "list_all is_word_char ty" "case sc of None \<Rightarrow> True | Some x \<Rightarrow> CHR '')'' \<notin> set x"
  shows "match_commit (ty @ scope_text sc @ bang_text bang @ '':'') = None"
proof -
  define r2 where "r2 = bang_text bang @ '':''"
  define r1 where "r1 = scope_text sc @ r2"
  have h2: "r2 \<noteq> [] \<and> (hd r2 = CHR ''!'' \<or> hd r2 = CHR '':'')"
    unfolding r2_def by (cases bang) (simp_all add: bang_text_def)
  have h1: "r1 \<noteq> [] \<and> (hd r1 = CHR ''('' \<or> hd r1 = CHR ''!'' \<or> hd r1 = CHR '':'')"
    unfolding r1_def using h2 by (cases sc) (auto simp: scope_text_def)
  then have nw: "\<not> is_word_char (hd r1)"
    using not_word_char by auto
  have tail: "(case match_bang r2 of (g3, s3) \<Rightarrow>
                 (case re_lit CHR '':'' (dropWhile is_space s3) of
                    None \<Rightarrow> None
                  | Some s4 \<Rightarrow>
                      (case match_message (length (takeWhile is_space s4)) s4 of
                         None \<Rightarrow> None
                       | Some g4 \<Rightarrow> Some (ty, g2, g3, g4)))) = None" for g2
    unfolding r2_def
    by (cases bang) (simp_all add: bang_text_def not_space match_rest_def)
  have scope: "(case match_scope r1 of (g2, s2) \<Rightarrow>
                 (case match_bang s2 of (g3, s3) \<Rightarrow>
                 (case re_lit CHR '':'' (dropWhile is_space s3) of
                    None \<Rightarrow> None
                  | Some s4 \<Rightarrow>
                      (case match_message (length (takeWhile is_space s4)) s4 of
                         None \<Rightarrow> None
                       | Some g4 \<Rightarrow> Some (ty, g2, g3, g4))))) = None"
  proof (cases sc)
    case None
    have "hd r2 \<noteq> CHR ''(''" using h2 by auto
    then have "match_scope r1 = (None, r2)"
      using None by (simp add: r1_def scope_text_def match_scope_None)
    then show ?thesis using tail by simp
  next
    case (Some x)
    show ?thesis
    proof (cases "x = []")
      case True
      then have "match_scope r1 = (None, ''()'' @ r2)"
        using Some by (simp add: r1_def scope_text_def)
      then show ?thesis by (simp add: not_space)
    next
      case False
      then have "match_scope r1 = (Some x, r2)"
        using Some assms(2) match_scope_Some [of x r2] by (simp add: r1_def scope_text_def)
      then show ?thesis using tail by simp
    qed
  qed
  show ?thesis
  proof (cases "ty = []")
    case True
    have "takeWhile is_word_char r1 = []"
      using h1 nw by (cases r1) simp_all
    then show ?thesis
      using True by (simp add: match_commit_def re_plus_def r1_def r2_def)
  next
    case False
    then have "re_plus is_word_char (ty @ r1) = Some (ty, r1)"
      using assms(1) nw by (simp add: re_plus_run)
    then show ?thesis
      using scope by (simp add: match_commit_def r1_def r2_def)
  qed
qed

section \<open>Claims about commit subjects\<close>

text \<open>
  C6, as amended. \<open>parse_commit\<close> is a total function. On a subject of one line (no
  newline character) of the form type, optional \<open>(scope)\<close>, optional \<open>!\<close>, optional white
  space, colon, optional white space, message (the type one or more word characters,
  the scope one or more characters other than \<open>)\<close>, the message not empty and starting
  with a character that is not white space unless it is a single character) it returns
  the lower-cased type, the scope (the empty string when absent), the message, and
  breaking true exactly when the \<open>!\<close> is present. On every subject of one line not of
  this form it returns type "other", scope "", the whole subject as message and breaking
  false.
\<close>

theorem parse_commit_grammar:
  "newline \<notin> set subj \<longrightarrow>
     (commit_parts subj ty sc bang msg \<longrightarrow>
        parse_commit subj = (lower ty, (case sc of None \<Rightarrow> [] | Some x \<Rightarrow> x), msg, bang)) \<and>
     (\<not> commit_grammar subj \<longrightarrow> parse_commit subj = (''other'', [], subj, False))"
proof (intro impI conjI)
  assume n: "newline \<notin> set subj"
  {
    assume "commit_parts subj ty sc bang msg"
    from match_commit_complete [OF this n]
    show "parse_commit subj = (lower ty, (case sc of None \<Rightarrow> [] | Some x \<Rightarrow> x), msg, bang)"
      by (simp add: parse_commit_def)
  }
  {
    assume g: "\<not> commit_grammar subj"
    have "match_commit subj = None"
    proof (cases "match_commit subj")
      case None
      then show ?thesis .
    next
      case (Some a)
      obtain g1 g2 g3 g4 where "a = (g1, g2, g3, g4)" by (cases a)
      with Some match_commit_sound [OF _ n] have "commit_grammar subj"
        unfolding commit_grammar_def by blast
      with g show ?thesis by simp
    qed
    then show "parse_commit subj = (''other'', [], subj, False)"
      by (simp add: parse_commit_def)
  }
qed

theorem parse_commit_grammar_witness:
  "newline \<notin> set ''feat(api)!: add endpoint'' \<and>
   commit_parts ''feat(api)!: add endpoint'' ''feat'' (Some ''api'') True ''add endpoint'' \<and>
   parse_commit ''feat(api)!: add endpoint'' = (''feat'', ''api'', ''add endpoint'', True) \<and>
   newline \<notin> set ''update readme'' \<and> \<not> commit_grammar ''update readme'' \<and>
   parse_commit ''update readme'' = (''other'', [], ''update readme'', False)"
proof -
  have n: "newline \<notin> set ''feat(api)!: add endpoint''" "newline \<notin> set ''update readme''"
    by (simp_all add: newline_def)
  have w: "list_all is_word_char ''feat''" "\<not> is_space CHR ''a''" "list_all is_space '' ''"
    by (simp_all add: is_word_char_def is_space_def code_point_def)
  have "list_all is_space [] \<and> list_all is_space '' '' \<and>
        ''feat(api)!: add endpoint'' =
          ''feat'' @ scope_text (Some ''api'') @ bang_text True @ [] @ '':'' @ '' '' @ ''add endpoint''"
    using w by (simp add: scope_text_def bang_text_def)
  then have "\<exists>ws1 ws2. list_all is_space ws1 \<and> list_all is_space ws2 \<and>
        ''feat(api)!: add endpoint'' =
          ''feat'' @ scope_text (Some ''api'') @ bang_text True @ ws1 @ '':'' @ ws2 @ ''add endpoint''"
    by blast
  then have p: "commit_parts ''feat(api)!: add endpoint'' ''feat'' (Some ''api'') True ''add endpoint''"
    unfolding commit_parts_def using w by simp
  have l: "lower ''feat'' = ''feat''" by code_simp
  have m: "match_commit ''update readme'' = None" by code_simp
  have g: "\<not> commit_grammar ''update readme''"
  proof
    assume "commit_grammar ''update readme''"
    then obtain ty sc bang msg where "commit_parts ''update readme'' ty sc bang msg"
      unfolding commit_grammar_def by blast
    from match_commit_complete [OF this n(2)] m show False by simp
  qed
  show ?thesis
    using n p g l
      parse_commit_grammar [of "''feat(api)!: add endpoint''" "''feat''" "Some ''api''" True "''add endpoint''"]
      parse_commit_grammar [of "''update readme''"]
    by simp
qed

text \<open>
  C6 as stated fails: in \<open>feat : add\<close> a space stands between the type and the colon, so
  the subject is not of the form \<open>type[(scope)][!]: message\<close>, and \<open>parse_commit\<close> still
  returns the type "feat" and the message "add".
\<close>

theorem parse_commit_grammar_counterexample:
  "parse_commit ''feat : add'' = (''feat'', [], ''add'', False) \<and>
   \<not> spec_commit_grammar ''feat : add''"
proof
  show "parse_commit ''feat : add'' = (''feat'', [], ''add'', False)"
    by code_simp
  have d: "dropWhile is_word_char ''feat : add'' = '' : add''"
    by code_simp
  show "\<not> spec_commit_grammar ''feat : add''"
  proof
    assume "spec_commit_grammar ''feat : add''"
    from spec_grammar_after_type [OF this] show False
      unfolding d by simp
  qed
qed

text \<open>
  C10. A subject made of a type, an optional scope in parentheses, an optional \<open>!\<close> and
  a colon with nothing after it is returned as type "other", scope "", the whole subject
  as message and breaking false.
\<close>

theorem parse_commit_empty_message:
  assumes "list_all is_word_char ty" "case sc of None \<Rightarrow> True | Some x \<Rightarrow> CHR '')'' \<notin> set x"
  shows "parse_commit (ty @ scope_text sc @ bang_text bang @ '':'') =
           (''other'', [], ty @ scope_text sc @ bang_text bang @ '':'', False)"
  using match_commit_no_message [OF assms] by (simp add: parse_commit_def)

theorem parse_commit_empty_message_witness:
  "list_all is_word_char ''feat'' \<and> CHR '')'' \<notin> set ''api'' \<and>
   parse_commit ''feat:'' = (''other'', [], ''feat:'', False) \<and>
   parse_commit ''feat(api)!:'' = (''other'', [], ''feat(api)!:'', False)"
proof -
  have w: "list_all is_word_char ''feat''"
    by (simp add: is_word_char_def code_point_def)
  show ?thesis
    using w parse_commit_empty_message [of "''feat''" None False]
      parse_commit_empty_message [of "''feat''" "Some ''api''" True]
    by (simp add: scope_text_def bang_text_def)
qed

section \<open>Grouping\<close>

lemma bucket_of_dict_append:
  "bucket_of (dict_append g k c) k' = (if k' = k then bucket_of g k @ [c] else bucket_of g k')"
  by (induction g) (auto simp: bucket_of_def)

lemma keys_dict_append:
  "map fst (dict_append g k c) = (if k \<in> set (map fst g) then map fst g else map fst g @ [k])"
  by (induction g) (auto simp: rev_image_eqI)

lemma bucket_of_group_loop:
  "bucket_of (group_loop g commits) k =
     bucket_of g k @ filter (\<lambda>c. bucket c = k) (map classify commits)"
  by (induction commits arbitrary: g) (simp_all add: bucket_of_dict_append)

lemma keys_group_loop:
  "map fst (group_loop g commits) =
     map fst g @ filter (\<lambda>k. k \<notin> set (map fst g)) (first_seen (map (\<lambda>c. bucket (classify c)) commits))"
proof (induction commits arbitrary: g)
  case Nil
  then show ?case by simp
next
  case (Cons c commits)
  define k where "k = bucket (classify c)"
  define ks where "ks = first_seen (map (\<lambda>c. bucket (classify c)) commits)"
  show ?case
  proof (cases "k \<in> set (map fst g)")
    case True
    then have "filter (\<lambda>x. x \<notin> set (map fst g)) (filter (\<lambda>y. y \<noteq> k) ks) =
               filter (\<lambda>x. x \<notin> set (map fst g)) ks"
      by (auto intro: filter_cong)
    then show ?thesis
      using True by (simp add: Cons.IH keys_dict_append k_def [symmetric] ks_def [symmetric])
  next
    case False
    have "filter (\<lambda>x. x \<notin> set (map fst g) \<and> x \<noteq> k) ks =
          filter (\<lambda>x. x \<notin> set (map fst g)) (filter (\<lambda>y. y \<noteq> k) ks)"
      by (auto intro: filter_cong)
    then show ?thesis
      using False by (simp add: Cons.IH keys_dict_append k_def [symmetric] ks_def [symmetric])
  qed
qed

lemma set_first_seen: "set (first_seen xs) = set xs"
  by (induction xs) auto

lemma distinct_first_seen: "distinct (first_seen xs)"
  by (induction xs) auto

lemma breaking_commits_by_key:
  assumes "distinct (map fst g)"
  shows "breaking_commits g = concat (map (\<lambda>k. filter breaking (bucket_of g k)) (map fst g))"
proof -
  have "bucket_of g (fst p) = snd p" if "p \<in> set g" for p
  proof -
    have "(fst p, snd p) \<in> set g" using that by simp
    from map_of_is_SomeI [OF assms this] show ?thesis
      by (simp add: bucket_of_def)
  qed
  then have 2: "map (\<lambda>p. filter breaking (snd p)) g = map (\<lambda>p. filter breaking (bucket_of g (fst p))) g"
    by (intro map_cong) simp_all
  have 1: "breaking_commits g = concat (map (\<lambda>p. filter breaking (snd p)) g)"
    by (simp add: breaking_commits_def case_prod_unfold)
  have 3: "map (\<lambda>p. filter breaking (bucket_of g (fst p))) g =
           map (\<lambda>k. filter breaking (bucket_of g k)) (map fst g)"
    by (simp add: comp_def)
  show ?thesis
    unfolding 1 2 3 by (rule refl)
qed

text \<open>
  C3, as amended. In every bucket of \<open>group_commits\<close> the commits keep their relative
  input order: the bucket of a key is the input sequence, classified, restricted to the
  commits filed under that key. The list of breaking changes goes through the buckets
  in the order in which their keys first occur in the input and lists the breaking
  commits of each bucket in input order.
\<close>

theorem group_commits_order:
  "bucket_of (group_commits commits) k = filter (\<lambda>c. bucket c = k) (map classify commits) \<and>
   map fst (group_commits commits) = first_seen (map (\<lambda>c. bucket (classify c)) commits) \<and>
   breaking_commits (group_commits commits) =
     concat (map (\<lambda>k. filter (\<lambda>c. bucket c = k \<and> breaking c) (map classify commits))
               (first_seen (map (\<lambda>c. bucket (classify c)) commits)))"
proof -
  have b: "bucket_of (group_commits commits) k = filter (\<lambda>c. bucket c = k) (map classify commits)" for k
    using bucket_of_group_loop [of "[]" commits k] by (simp add: group_commits_def bucket_of_def)
  have k: "map fst (group_commits commits) = first_seen (map (\<lambda>c. bucket (classify c)) commits)"
    using keys_group_loop [of "[]" commits] by (simp add: group_commits_def)
  then have "distinct (map fst (group_commits commits))"
    by (simp add: distinct_first_seen)
  from breaking_commits_by_key [OF this] show ?thesis
    using b k by (simp add: conj_commute)
qed


theorem group_commits_order_witness:
  "map hash (bucket_of (group_commits
     [\<lparr>hash = ''a1b2c3d4'', subject = ''feat!: drop the v1 api'', date = ''2024-01-03'', author = ''dev''\<rparr>,
      \<lparr>hash = ''e5f6a7b8'', subject = ''fix!: crash on null'', date = ''2024-01-02'', author = ''dev''\<rparr>,
      \<lparr>hash = ''0a1b2c3d'', subject = ''feat(api)!: rename endpoint'', date = ''2024-01-01'', author = ''dev''\<rparr>]) ''feat'') = [''a1b2c3d4'', ''0a1b2c3d'']"
proof -
  have e: "map hash (filter (\<lambda>c. bucket c = ''feat'') (map classify
     [\<lparr>hash = ''a1b2c3d4'', subject = ''feat!: drop the v1 api'', date = ''2024-01-03'', author = ''dev''\<rparr>,
      \<lparr>hash = ''e5f6a7b8'', subject = ''fix!: crash on null'', date = ''2024-01-02'', author = ''dev''\<rparr>,
      \<lparr>hash = ''0a1b2c3d'', subject = ''feat(api)!: rename endpoint'', date = ''2024-01-01'', author = ''dev''\<rparr>])) = [''a1b2c3d4'', ''0a1b2c3d'']"
    by code_simp
  have "bucket_of (group_commits
     [\<lparr>hash = ''a1b2c3d4'', subject = ''feat!: drop the v1 api'', date = ''2024-01-03'', author = ''dev''\<rparr>,
      \<lparr>hash = ''e5f6a7b8'', subject = ''fix!: crash on null'', date = ''2024-01-02'', author = ''dev''\<rparr>,
      \<lparr>hash = ''0a1b2c3d'', subject = ''feat(api)!: rename endpoint'', date = ''2024-01-01'', author = ''dev''\<rparr>]) ''feat'' = filter (\<lambda>c. bucket c = ''feat'') (map classify
     [\<lparr>hash = ''a1b2c3d4'', subject = ''feat!: drop the v1 api'', date = ''2024-01-03'', author = ''dev''\<rparr>,
      \<lparr>hash = ''e5f6a7b8'', subject = ''fix!: crash on null'', date = ''2024-01-02'', author = ''dev''\<rparr>,
      \<lparr>hash = ''0a1b2c3d'', subject = ''feat(api)!: rename endpoint'', date = ''2024-01-01'', author = ''dev''\<rparr>])"
    using group_commits_order [of
     "[\<lparr>hash = ''a1b2c3d4'', subject = ''feat!: drop the v1 api'', date = ''2024-01-03'', author = ''dev''\<rparr>,
      \<lparr>hash = ''e5f6a7b8'', subject = ''fix!: crash on null'', date = ''2024-01-02'', author = ''dev''\<rparr>,
      \<lparr>hash = ''0a1b2c3d'', subject = ''feat(api)!: rename endpoint'', date = ''2024-01-01'', author = ''dev''\<rparr>]" "''feat''"] by (rule conjunct1)
  then show ?thesis
    using e by (simp only:)
qed

text \<open>
  C3 as stated fails for the list of breaking changes: with a breaking fix between two
  breaking features, the list has both features before the fix, which is not the input
  order.
\<close>

theorem group_commits_order_counterexample:
  "map hash (breaking_commits (group_commits
     [\<lparr>hash = ''a1b2c3d4'', subject = ''feat!: drop the v1 api'', date = ''2024-01-03'', author = ''dev''\<rparr>,
      \<lparr>hash = ''e5f6a7b8'', subject = ''fix!: crash on null'', date = ''2024-01-02'', author = ''dev''\<rparr>,
      \<lparr>hash = ''0a1b2c3d'', subject = ''feat(api)!: rename endpoint'', date = ''2024-01-01'', author = ''dev''\<rparr>])) = [''a1b2c3d4'', ''0a1b2c3d'', ''e5f6a7b8''] \<and>
   map hash (filter breaking (map classify
     [\<lparr>hash = ''a1b2c3d4'', subject = ''feat!: drop the v1 api'', date = ''2024-01-03'', author = ''dev''\<rparr>,
      \<lparr>hash = ''e5f6a7b8'', subject = ''fix!: crash on null'', date = ''2024-01-02'', author = ''dev''\<rparr>,
      \<lparr>hash = ''0a1b2c3d'', subject = ''feat(api)!: rename endpoint'', date = ''2024-01-01'', author = ''dev''\<rparr>])) = [''a1b2c3d4'', ''e5f6a7b8'', ''0a1b2c3d'']"
  by code_simp

section \<open>Rendering\<close>















end
